theory Spec2Isabelle
  imports Main
begin

unbundle bit_operations_syntax

section \<open>Python values and exceptions\<close>

text \<open>
  A Python \<^verbatim>\<open>bytes\<close> object and a Python list of ints are both modelled as a list of
  naturals. A \<^verbatim>\<open>bytes\<close> object additionally has every element in \<^verbatim>\<open>range(256)\<close>; the
  constructor \<^verbatim>\<open>bytes(...)\<close> checks this and raises \<^verbatim>\<open>ValueError\<close> otherwise.
\<close>

type_synonym bytes = "nat list"

datatype error = AssertionError | ValueError | OverflowError | IndexError | SystemExit nat

definition BLOCKSIZE :: nat where
  "BLOCKSIZE = 16"

definition is_bytes :: "nat list \<Rightarrow> bool" where
  "is_bytes xs = list_all (\<lambda>x. x < 256) xs"

definition bytes_of :: "nat list \<Rightarrow> error + bytes" where
  \<comment> \<open>\<^verbatim>\<open>bytes(iterable_of_ints)\<close>\<close>
  "bytes_of xs = (if is_bytes xs then Inr xs else Inl ValueError)"

definition to_bytes :: "nat \<Rightarrow> error + bytes" where
  \<comment> \<open>\<^verbatim>\<open>n.to_bytes(1, "big")\<close>\<close>
  "to_bytes n = (if n < 256 then Inr [n] else Inl OverflowError)"

section \<open>The attack script\<close>

definition xor_bytes :: "nat list \<Rightarrow> nat list \<Rightarrow> error + bytes" where
  \<comment> \<open>\<^verbatim>\<open>xor(a, b)\<close>: the assertion, then \<^verbatim>\<open>bytes(x ^ y for x, y in zip(a, b))\<close>\<close>
  "xor_bytes a b =
     (if length a \<noteq> length b then Inl AssertionError
      else bytes_of (map2 (XOR) a b))"

text \<open>
  The oracle object is any value with a \<^verbatim>\<open>decrypt_check(block, iv)\<close> method; it is passed
  as that method, which returns the pair \<^verbatim>\<open>(dk, r)\<close> or raises.

  Every call of \<^verbatim>\<open>oracle.decrypt_check\<close> is recorded, in order, together with the loop
  variables at the time of the call: whether it is the first probe for a guess or the
  confirmation probe, the index \<^verbatim>\<open>i\<close>, the guess \<^verbatim>\<open>g\<close>, the contents of \<^verbatim>\<open>iv_list\<close>, and the
  two arguments of the call.
\<close>

type_synonym oracle_fn = "bytes \<Rightarrow> bytes \<Rightarrow> error + (bytes \<times> bool)"

datatype kind = Probe | Confirmation

datatype call =
  Call (c_kind: kind) (c_index: nat) (c_guess: nat) (c_D: "nat list")
       (c_block: bytes) (c_iv: bytes)

fun prepend :: "call list \<Rightarrow> 'a \<times> call list \<Rightarrow> 'a \<times> call list" where
  "prepend cs (r, cs') = (r, cs @ cs')"

definition probe_iv :: "nat list \<Rightarrow> nat \<Rightarrow> nat \<Rightarrow> error + bytes" where
  \<comment> \<open>\<^verbatim>\<open>iv1\<close>, lines 43-47\<close>
  "probe_iv iv_list i g =
     (case bytes_of (take i iv_list) of
        Inl e \<Rightarrow> Inl e
      | Inr pre \<Rightarrow>
          (case to_bytes g of
             Inl e \<Rightarrow> Inl e
           | Inr mid \<Rightarrow>
               (case xor_bytes (drop (i + 1) iv_list)
                       (replicate (BLOCKSIZE - (i + 1)) (BLOCKSIZE - i)) of
                  Inl e \<Rightarrow> Inl e
                | Inr suf \<Rightarrow> Inr (pre @ mid @ suf))))"

definition confirm_iv :: "bytes \<Rightarrow> nat \<Rightarrow> error + bytes" where
  \<comment> \<open>\<^verbatim>\<open>iv2\<close>, lines 62-66; it is only built when \<^verbatim>\<open>i = BLOCKSIZE - 1\<close>, so \<^verbatim>\<open>i - 1\<close> is
      not negative\<close>
  "confirm_iv iv1 i =
     (if i - 1 < length iv1 then
        (case to_bytes ((iv1 ! (i - 1) + 1) mod 256) of
           Inl e \<Rightarrow> Inl e
         | Inr mid \<Rightarrow> Inr (take (i - 1) iv1 @ mid @ drop ((i - 1) + 1) iv1))
      else Inl IndexError)"

definition set_item :: "nat list \<Rightarrow> nat \<Rightarrow> nat \<Rightarrow> error + nat list" where
  \<comment> \<open>\<^verbatim>\<open>iv_list[i] = v\<close>\<close>
  "set_item iv_list i v =
     (if i < length iv_list then Inr (iv_list[i := v]) else Inl IndexError)"

text \<open>
  The inner loop \<^verbatim>\<open>for g in range(0x100)\<close>, over the guesses still to be tried. It ends
  with \<^verbatim>\<open>break\<close> (the updated \<^verbatim>\<open>iv_list\<close>), by running out of guesses (the \<^verbatim>\<open>else\<close>
  branch of the loop is taken), or with an exception.
\<close>

datatype outcome = Break "nat list" | Exhausted

fun guess_loop ::
  "oracle_fn \<Rightarrow> bytes \<Rightarrow> nat list \<Rightarrow> nat \<Rightarrow> nat list \<Rightarrow> (error + outcome) \<times> call list" where
  "guess_loop chk block iv_list i [] = (Inr Exhausted, [])"
| "guess_loop chk block iv_list i (g # gs) =
     (case probe_iv iv_list i g of
        Inl e \<Rightarrow> (Inl e, [])
      | Inr iv1 \<Rightarrow>
          (case chk block iv1 of
             Inl e \<Rightarrow> (Inl e, [Call Probe i g iv_list block iv1])
           | Inr (dk, r) \<Rightarrow>
               if r then
                 if i = BLOCKSIZE - 1 then
                   (case confirm_iv iv1 i of
                      Inl e \<Rightarrow> (Inl e, [Call Probe i g iv_list block iv1])
                    | Inr iv2 \<Rightarrow>
                        (case chk block iv2 of
                           Inl e \<Rightarrow>
                             (Inl e, [Call Probe i g iv_list block iv1,
                                      Call Confirmation i g iv_list block iv2])
                         | Inr (dk2, r2) \<Rightarrow>
                             if r2 then
                               (case set_item iv_list i (g XOR (BLOCKSIZE - i)) of
                                  Inl e \<Rightarrow>
                                    (Inl e, [Call Probe i g iv_list block iv1,
                                             Call Confirmation i g iv_list block iv2])
                                | Inr iv_list' \<Rightarrow>
                                    (Inr (Break iv_list'),
                                     [Call Probe i g iv_list block iv1,
                                      Call Confirmation i g iv_list block iv2]))
                             else
                               prepend [Call Probe i g iv_list block iv1,
                                        Call Confirmation i g iv_list block iv2]
                                 (guess_loop chk block iv_list i gs)))
                 else
                   (case set_item iv_list i (g XOR (BLOCKSIZE - i)) of
                      Inl e \<Rightarrow> (Inl e, [Call Probe i g iv_list block iv1])
                    | Inr iv_list' \<Rightarrow>
                        (Inr (Break iv_list'), [Call Probe i g iv_list block iv1]))
               else
                 prepend [Call Probe i g iv_list block iv1]
                   (guess_loop chk block iv_list i gs)))"

text \<open>
  The outer loop \<^verbatim>\<open>for i in reversed(range(BLOCKSIZE))\<close>, over the indices still to be
  processed. When the inner loop runs out of guesses the script calls \<^verbatim>\<open>exit(1)\<close>.
\<close>

fun index_loop ::
  "oracle_fn \<Rightarrow> bytes \<Rightarrow> nat list \<Rightarrow> nat list \<Rightarrow> (error + nat list) \<times> call list" where
  "index_loop chk block iv_list [] = (Inr iv_list, [])"
| "index_loop chk block iv_list (i # is) =
     (case guess_loop chk block iv_list i [0..<256] of
        (Inl e, cs) \<Rightarrow> (Inl e, cs)
      | (Inr Exhausted, cs) \<Rightarrow> (Inl (SystemExit 1), cs)
      | (Inr (Break iv_list'), cs) \<Rightarrow> prepend cs (index_loop chk block iv_list' is))"

definition attack_single_block ::
  "bytes \<Rightarrow> bytes \<Rightarrow> oracle_fn \<Rightarrow> (error + bytes) \<times> call list" where
  "attack_single_block iv block chk =
     (case index_loop chk block (replicate BLOCKSIZE 0) (rev [0..<BLOCKSIZE]) of
        (Inl e, cs) \<Rightarrow> (Inl e, cs)
      | (Inr iv_list, cs) \<Rightarrow> (xor_bytes iv_list iv, cs))"

text \<open>
  The driver of the main section: the ciphertext is cut into blocks, each block is
  attacked with its predecessor, the recovered blocks are appended to \<^verbatim>\<open>plain\<close>.
\<close>

definition blocks_of :: "bytes \<Rightarrow> bytes list" where
  \<comment> \<open>\<^verbatim>\<open>[ct[i : i + BLOCKSIZE] for i in range(0, len(ct), BLOCKSIZE)]\<close>\<close>
  "blocks_of ct =
     map (\<lambda>k. take BLOCKSIZE (drop (k * BLOCKSIZE) ct))
         [0..<(length ct + BLOCKSIZE - 1) div BLOCKSIZE]"

fun driver_loop ::
  "oracle_fn \<Rightarrow> bytes \<Rightarrow> bytes list \<Rightarrow> bytes \<Rightarrow> (error + bytes) \<times> call list" where
  "driver_loop chk prev_block [] plain = (Inr plain, [])"
| "driver_loop chk prev_block (block # rest) plain =
     (case attack_single_block prev_block block chk of
        (Inl e, cs) \<Rightarrow> (Inl e, cs)
      | (Inr plain_block, cs) \<Rightarrow>
          prepend cs (driver_loop chk block rest (plain @ plain_block)))"

definition driver :: "oracle_fn \<Rightarrow> bytes \<Rightarrow> bytes \<Rightarrow> (error + bytes) \<times> call list" where
  "driver chk iv ct = driver_loop chk iv (blocks_of ct) []"

section \<open>The demo oracle\<close>

text \<open>
  Modelled from the spec: the AES block cipher of the pycryptodome package is not part
  of the sources. It is taken as a parameter: a keyed pair of functions on blocks.
\<close>

record blockcipher =
  encrypt_block :: "bytes \<Rightarrow> bytes \<Rightarrow> bytes"
  decrypt_block :: "bytes \<Rightarrow> bytes \<Rightarrow> bytes"

text \<open>
  Modelled from the spec: CBC mode of the pycryptodome package. Each plaintext block is
  XORed with the previous ciphertext block (the IV for the first) and encrypted;
  decryption is the block decryption XORed with the previous ciphertext block.
\<close>

fun cbc_encrypt :: "(bytes \<Rightarrow> bytes) \<Rightarrow> bytes \<Rightarrow> bytes list \<Rightarrow> bytes list" where
  "cbc_encrypt E prev [] = []"
| "cbc_encrypt E prev (p # ps) =
     (let c = E (map2 (XOR) p prev) in c # cbc_encrypt E c ps)"

fun cbc_decrypt :: "(bytes \<Rightarrow> bytes) \<Rightarrow> bytes \<Rightarrow> bytes list \<Rightarrow> bytes list" where
  "cbc_decrypt D prev [] = []"
| "cbc_decrypt D prev (c # cs) = map2 (XOR) (D c) prev # cbc_decrypt D c cs"

text \<open>
  Modelled from the spec: \<^verbatim>\<open>pad\<close> and \<^verbatim>\<open>unpad\<close> of the pycryptodome package (PKCS#7). The
  pad value equals the pad length and is replicated for every pad byte; unpadding
  raises \<^verbatim>\<open>ValueError\<close> unless the last byte \<^verbatim>\<open>p\<close> is in \<^verbatim>\<open>[1, block_size]\<close> and the last \<^verbatim>\<open>p\<close>
  bytes all equal \<^verbatim>\<open>p\<close>.
\<close>

definition pad :: "bytes \<Rightarrow> nat \<Rightarrow> bytes" where
  "pad data block_size =
     (let padding_len = block_size - length data mod block_size
      in data @ replicate padding_len padding_len)"

definition unpad :: "bytes \<Rightarrow> nat \<Rightarrow> error + bytes" where
  "unpad padded block_size =
     (let pdata_len = length padded in
      if pdata_len = 0 then Inl ValueError
      else if pdata_len mod block_size \<noteq> 0 then Inl ValueError
      else
        let padding_len = last padded in
        if padding_len < 1 \<or> padding_len > min block_size pdata_len then Inl ValueError
        else if drop (pdata_len - padding_len) padded \<noteq> replicate padding_len padding_len
          then Inl ValueError
        else Inr (take (pdata_len - padding_len) padded))"

text \<open>
  The class \<^verbatim>\<open>Oracle\<close>. Its key is drawn from \<^verbatim>\<open>os.urandom\<close> when the object is created;
  the fresh random IV of \<^verbatim>\<open>encrypt\<close> is an explicit argument. The message is given as
  its UTF-8 encoding.
\<close>

record Oracle =
  key :: bytes

definition encrypt :: "blockcipher \<Rightarrow> Oracle \<Rightarrow> bytes \<Rightarrow> bytes \<Rightarrow> bytes \<times> bytes" where
  "encrypt aes self iv message =
     (iv, concat (cbc_encrypt (encrypt_block aes (key self)) iv
                    (blocks_of (pad message BLOCKSIZE))))"

definition decrypt_check :: "blockcipher \<Rightarrow> Oracle \<Rightarrow> oracle_fn" where
  "decrypt_check aes self ct iv =
     (if length iv \<noteq> BLOCKSIZE then Inl ValueError
      else if length ct mod BLOCKSIZE \<noteq> 0 then Inl ValueError
      else
        let d_k = concat (cbc_decrypt (decrypt_block aes (key self)) iv (blocks_of ct)) in
        (case unpad d_k BLOCKSIZE of
           Inr _ \<Rightarrow> Inr (d_k, True)
         | Inl e \<Rightarrow> if e = ValueError then Inr (d_k, False) else Inl e))"

section \<open>Auxiliary notions for the proofs\<close>

text \<open>
  The value of \<^verbatim>\<open>iv1\<close> and of \<^verbatim>\<open>iv2\<close> when no exception is raised, the well-formed
  states of \<^verbatim>\<open>iv_list\<close>, the loop invariant of the outer loop (the entries below the
  next index are still zero), and the relation between an earlier and a later call.
\<close>

definition probe_form :: "nat list \<Rightarrow> nat \<Rightarrow> nat \<Rightarrow> bytes" where
  "probe_form D i g = take i D @ g # map (\<lambda>d. d XOR (BLOCKSIZE - i)) (drop (Suc i) D)"

definition confirm_form :: "bytes \<Rightarrow> nat \<Rightarrow> bytes" where
  "confirm_form iv1 i = iv1[i - 1 := (iv1 ! (i - 1) + 1) mod 256]"

definition wf_D :: "nat list \<Rightarrow> bool" where
  "wf_D D = (length D = BLOCKSIZE \<and> is_bytes D)"

definition inv_D :: "nat \<Rightarrow> nat list \<Rightarrow> bool" where
  "inv_D n D = (wf_D D \<and> take n D = replicate n 0)"

definition keeps :: "call \<Rightarrow> call \<Rightarrow> bool" where
  "keeps c c' = (c_index c' \<le> c_index c \<and> (\<forall>j. c_index c < j \<longrightarrow> c_D c' ! j = c_D c ! j))"

text \<open>Two trivial oracles, used as concrete inputs.\<close>

definition always_valid :: oracle_fn where
  "always_valid block iv = Inr ([], True)"

definition never_valid :: oracle_fn where
  "never_valid block iv = Inr ([], False)"

definition valid_if_two :: oracle_fn where
  "valid_if_two block iv = Inr ([], 2 \<in> set iv)"

definition last_only :: oracle_fn where
  "last_only block iv = Inr ([], iv ! 15 = 0)"

section \<open>The driver as the specification describes it\<close>

text \<open>
  Following the words of the specification: the ciphertext is split into consecutive
  blocks of \<open>BLOCKSIZE\<close> bytes; the predecessor of block \<open>k\<close> is the IV when \<open>k = 0\<close> and
  block \<open>k - 1\<close> otherwise; the blocks are attacked in increasing order and the recovered
  blocks are concatenated, the first failure ending the run.
\<close>

definition predecessor :: "bytes \<Rightarrow> bytes list \<Rightarrow> nat \<Rightarrow> bytes" where
  "predecessor iv blocks k = (if k = 0 then iv else blocks ! (k - 1))"

fun collect :: "((error + bytes) \<times> call list) list \<Rightarrow> (error + bytes) \<times> call list" where
  "collect [] = (Inr [], [])"
| "collect ((Inl e, cs) # rest) = (Inl e, cs)"
| "collect ((Inr p, cs) # rest) =
     (case collect rest of
        (Inl e, cs') \<Rightarrow> (Inl e, cs @ cs')
      | (Inr ps, cs') \<Rightarrow> (Inr (p @ ps), cs @ cs'))"

definition driver_spec :: "oracle_fn \<Rightarrow> bytes \<Rightarrow> bytes \<Rightarrow> (error + bytes) \<times> call list" where
  "driver_spec chk iv ct =
     (let n = (length ct + BLOCKSIZE - 1) div BLOCKSIZE;
          blocks = map (\<lambda>k. take BLOCKSIZE (drop (k * BLOCKSIZE) ct)) [0..<n]
      in collect (map (\<lambda>k. attack_single_block (predecessor iv blocks k) (blocks ! k) chk)
                      [0..<n]))"

section \<open>Auxiliary notions for the oracle\<close>

text \<open>
  The validity of a pad in the words of the specification: the last byte \<open>p\<close> is in
  \<open>[1, BLOCKSIZE]\<close> and the last \<open>p\<close> bytes all equal \<open>p\<close>.
\<close>

definition pkcs7_valid :: "bytes \<Rightarrow> bool" where
  "pkcs7_valid d =
     (d \<noteq> [] \<and> 1 \<le> last d \<and> last d \<le> BLOCKSIZE \<and>
      drop (length d - last d) d = replicate (last d) (last d))"

text \<open>
  An oracle is honest for a block with block decryption \<open>dk\<close> when, for every IV of
  \<open>BLOCKSIZE\<close> bytes, it reports whether \<open>dk XOR iv\<close> ends in a valid pad. The state of
  \<^verbatim>\<open>iv_list\<close> agrees with \<open>dk\<close> from index \<open>n\<close> on when it satisfies the loop invariant and
  its bytes from \<open>n\<close> on are those of \<open>dk\<close>.
\<close>

definition honest :: "oracle_fn \<Rightarrow> bytes \<Rightarrow> bytes \<Rightarrow> bool" where
  "honest chk block dk =
     (\<forall>p. length p = BLOCKSIZE \<longrightarrow>
          (\<exists>raw. chk block p = Inr (raw, pkcs7_valid (map2 (XOR) dk p))))"

definition agrees :: "nat \<Rightarrow> nat list \<Rightarrow> bytes \<Rightarrow> bool" where
  "agrees n D dk = (inv_D n D \<and> (\<forall>j. n \<le> j \<and> j < BLOCKSIZE \<longrightarrow> D ! j = dk ! j))"

text \<open>
  What is assumed of the block cipher under a key: on blocks of \<open>BLOCKSIZE\<close> bytes the
  encryption returns such a block and the decryption inverts it.
\<close>

definition wf_cipher :: "blockcipher \<Rightarrow> bytes \<Rightarrow> bool" where
  "wf_cipher aes k =
     (\<forall>x. length x = BLOCKSIZE \<and> is_bytes x \<longrightarrow>
          length (encrypt_block aes k x) = BLOCKSIZE \<and> is_bytes (encrypt_block aes k x) \<and>
          decrypt_block aes k (encrypt_block aes k x) = x)"

text \<open>
  A block cipher small enough to compute with, used for the concrete inputs: the block
  XORed with the key. Two oracles with this cipher.
\<close>

definition toy_cipher :: blockcipher where
  "toy_cipher =
     \<lparr>encrypt_block = (\<lambda>k x. map2 (XOR) x k), decrypt_block = (\<lambda>k x. map2 (XOR) x k)\<rparr>"

definition toy_oracle :: Oracle where
  "toy_oracle = \<lparr>key = [1, 2, 3, 4, 5, 6, 7, 8, 9, 10, 11, 12, 13, 14, 15, 16]\<rparr>"

definition worst_oracle :: Oracle where
  "worst_oracle =
     \<lparr>key = [239, 240, 241, 242, 243, 244, 245, 246, 247, 248, 249, 250, 251, 252, 253, 254]\<rparr>"

section \<open>Bytes and exclusive or\<close>

lemma xor_lt_256: "x < 256 \<Longrightarrow> y < 256 \<Longrightarrow> x XOR y < (256::nat)"
proof -
  assume a: "x < 256" "y < 256"
  have "x < 2 ^ 8" "y < 2 ^ 8" using a by simp_all
  then have "take_bit 8 x = x" "take_bit 8 y = y" by (simp_all add: take_bit_nat_eq_self_iff)
  then have "take_bit 8 (x XOR y) = x XOR y" by simp
  then have "x XOR y < 2 ^ 8" by (simp only: take_bit_nat_eq_self_iff)
  then show ?thesis by simp
qed

lemma xor_cancel_right: "(x XOR y) XOR y = (x::nat)"
  by (simp add: xor.assoc)

lemma xor_eq_iff: "(x XOR y = z) = (x = z XOR (y::nat))"
  by (metis xor_cancel_right)

lemma is_bytes_append [simp]: "is_bytes (xs @ ys) = (is_bytes xs \<and> is_bytes ys)"
  by (simp add: is_bytes_def)

lemma is_bytes_Nil [simp]: "is_bytes []" by (simp add: is_bytes_def)

lemma is_bytes_Cons [simp]: "is_bytes (x # xs) = (x < 256 \<and> is_bytes xs)" by (simp add: is_bytes_def)

lemma is_bytes_take: "is_bytes xs \<Longrightarrow> is_bytes (take n xs)"
  by (auto simp: is_bytes_def list_all_iff dest: in_set_takeD)

lemma is_bytes_drop: "is_bytes xs \<Longrightarrow> is_bytes (drop n xs)"
  by (auto simp: is_bytes_def list_all_iff dest: in_set_dropD)

lemma is_bytes_replicate [simp]: "is_bytes (replicate n x) = (n = 0 \<or> x < 256)"
  by (auto simp: is_bytes_def list_all_iff)

lemma is_bytes_update: "is_bytes xs \<Longrightarrow> v < 256 \<Longrightarrow> is_bytes (xs[i := v])"
  by (auto simp: is_bytes_def list_all_iff dest!: set_update_subset_insert[THEN subsetD])

lemma is_bytes_nth: "is_bytes xs \<Longrightarrow> i < length xs \<Longrightarrow> xs ! i < 256"
  by (auto simp: is_bytes_def list_all_length)

lemma is_bytes_map_xor: "is_bytes xs \<Longrightarrow> c < 256 \<Longrightarrow> is_bytes (map (\<lambda>d. d XOR c) xs)"
  by (auto simp: is_bytes_def list_all_iff intro: xor_lt_256)

lemma is_bytes_map2_xor: "is_bytes xs \<Longrightarrow> is_bytes ys \<Longrightarrow> is_bytes (map2 (XOR) xs ys)"
  by (auto simp: is_bytes_def list_all_iff intro!: xor_lt_256 dest: set_zip_leftD set_zip_rightD)

lemma map2_xor_replicate: "length xs = n \<Longrightarrow> map2 (XOR) xs (replicate n c) = map (\<lambda>d. d XOR c) xs"
  by (induction xs arbitrary: n) auto

lemma probe_iv_ok:
  assumes "length D = BLOCKSIZE" "is_bytes D" "i < BLOCKSIZE" "g < 256"
  shows "probe_iv D i g = Inr (take i D @ g # map (\<lambda>d. d XOR (BLOCKSIZE - i)) (drop (Suc i) D))"
proof -
  have p: "BLOCKSIZE - i < 256" by (simp add: BLOCKSIZE_def)
  have "is_bytes (map (\<lambda>d. d XOR (BLOCKSIZE - i)) (drop (Suc i) D))"
    using assms(2) p by (intro is_bytes_map_xor is_bytes_drop)
  then show ?thesis
    using assms by (simp add: probe_iv_def bytes_of_def to_bytes_def xor_bytes_def
        is_bytes_take map2_xor_replicate)
qed

lemma confirm_iv_ok:
  assumes "i - 1 < length iv1"
  shows "confirm_iv iv1 i = Inr (iv1[i - 1 := (iv1 ! (i - 1) + 1) mod 256])"
  using assms by (simp add: confirm_iv_def to_bytes_def upd_conv_take_nth_drop)

section \<open>The inner loop\<close>

lemma fst_prepend [simp]: "fst (prepend cs p) = fst p"
  by (cases p) simp

lemma snd_prepend [simp]: "snd (prepend cs p) = cs @ snd p"
  by (cases p) simp

lemma length_probe_form: "length D = BLOCKSIZE \<Longrightarrow> i < BLOCKSIZE \<Longrightarrow> length (probe_form D i g) = BLOCKSIZE"
  by (simp add: probe_form_def)

lemma guess_loop_step:
  assumes "wf_D D" "i < BLOCKSIZE" "g < 256"
  shows "guess_loop chk block D i (g # gs) =
    (case chk block (probe_form D i g) of
       Inl e \<Rightarrow> (Inl e, [Call Probe i g D block (probe_form D i g)])
     | Inr (dk, r) \<Rightarrow>
         if \<not> r then prepend [Call Probe i g D block (probe_form D i g)] (guess_loop chk block D i gs)
         else if i \<noteq> BLOCKSIZE - 1 then
           (Inr (Break (D[i := g XOR (BLOCKSIZE - i)])), [Call Probe i g D block (probe_form D i g)])
         else
           (case chk block (confirm_form (probe_form D i g) i) of
              Inl e \<Rightarrow> (Inl e, [Call Probe i g D block (probe_form D i g),
                               Call Confirmation i g D block (confirm_form (probe_form D i g) i)])
            | Inr (dk2, r2) \<Rightarrow>
                if r2 then (Inr (Break (D[i := g XOR (BLOCKSIZE - i)])),
                            [Call Probe i g D block (probe_form D i g),
                             Call Confirmation i g D block (confirm_form (probe_form D i g) i)])
                else prepend [Call Probe i g D block (probe_form D i g),
                              Call Confirmation i g D block (confirm_form (probe_form D i g) i)]
                       (guess_loop chk block D i gs)))"
proof -
  have p: "probe_iv D i g = Inr (probe_form D i g)"
    using assms by (simp add: probe_iv_ok probe_form_def wf_D_def)
  have l: "length (probe_form D i g) = BLOCKSIZE"
    using assms by (simp add: length_probe_form wf_D_def)
  have c: "confirm_iv (probe_form D i g) i = Inr (confirm_form (probe_form D i g) i)"
    using assms l by (simp add: confirm_iv_ok confirm_form_def)
  have s: "set_item D i (g XOR (BLOCKSIZE - i)) = Inr (D[i := g XOR (BLOCKSIZE - i)])"
    using assms by (simp add: set_item_def wf_D_def)
  show ?thesis
    unfolding guess_loop.simps p c s sum.case
    by (auto split: sum.splits prod.splits)
qed

lemma guess_loop_log:
  assumes "wf_D D" "i < BLOCKSIZE" "\<forall>g\<in>set gs. g < 256"
    and "c \<in> set (snd (guess_loop chk block D i gs))"
  shows "c_index c = i \<and> c_guess c \<in> set gs \<and> c_D c = D \<and> c_block c = block \<and>
         (c_kind c = Probe \<longrightarrow> c_iv c = probe_form D i (c_guess c)) \<and>
         (c_kind c = Confirmation \<longrightarrow> i = BLOCKSIZE - 1 \<and>
            c_iv c = confirm_form (probe_form D i (c_guess c)) i)"
  using assms(3,4)
proof (induction gs)
  case Nil
  then show ?case by simp
next
  case (Cons g gs)
  have g: "g < 256" using Cons.prems by simp
  show ?case
    using Cons unfolding guess_loop_step[OF assms(1,2) g]
    by (auto split: sum.splits prod.splits if_splits)
qed

lemma guess_loop_break:
  assumes "wf_D D" "i < BLOCKSIZE" "\<forall>g\<in>set gs. g < 256"
    and "fst (guess_loop chk block D i gs) = Inr (Break D')"
  shows "\<exists>g\<in>set gs. D' = D[i := g XOR (BLOCKSIZE - i)]"
  using assms(3,4)
proof (induction gs)
  case Nil
  then show ?case by simp
next
  case (Cons g gs)
  have g: "g < 256" using Cons.prems by simp
  show ?case
    using Cons unfolding guess_loop_step[OF assms(1,2) g]
    by (auto split: sum.splits prod.splits if_splits)
qed

lemma guess_loop_error:
  assumes "wf_D D" "i < BLOCKSIZE" "\<forall>g\<in>set gs. g < 256"
    and "fst (guess_loop chk block D i gs) = Inl e"
  shows "\<exists>c\<in>set (snd (guess_loop chk block D i gs)). chk (c_block c) (c_iv c) = Inl e"
  using assms(3,4)
proof (induction gs)
  case Nil
  then show ?case by simp
next
  case (Cons g gs)
  have g: "g < 256" using Cons.prems by simp
  show ?case
    using Cons unfolding guess_loop_step[OF assms(1,2) g]
    by (auto split: sum.splits prod.splits if_splits)
qed

lemma guess_loop_count:
  assumes "wf_D D" "i < BLOCKSIZE" "\<forall>g\<in>set gs. g < 256"
  shows "length (snd (guess_loop chk block D i gs)) \<le> (if i = BLOCKSIZE - 1 then 2 else 1) * length gs"
  using assms(3)
proof (induction gs)
  case Nil
  then show ?case by simp
next
  case (Cons g gs)
  have g: "g < 256" using Cons.prems by simp
  show ?case
    using Cons unfolding guess_loop_step[OF assms(1,2) g]
    by (auto split: sum.splits prod.splits if_splits)
qed

section \<open>The outer loop\<close>

lemma index_loop_Cons_cases:
  obtains
    (err) e where "fst (guess_loop chk block D i [0..<256]) = Inl e"
      "index_loop chk block D (i # is) = (Inl e, snd (guess_loop chk block D i [0..<256]))"
  | (exh) "fst (guess_loop chk block D i [0..<256]) = Inr Exhausted"
      "index_loop chk block D (i # is) = (Inl (SystemExit 1), snd (guess_loop chk block D i [0..<256]))"
  | (brk) D' where "fst (guess_loop chk block D i [0..<256]) = Inr (Break D')"
      "index_loop chk block D (i # is) =
         prepend (snd (guess_loop chk block D i [0..<256])) (index_loop chk block D' is)"
proof (cases "guess_loop chk block D i [0..<256]")
  case (Pair r cs)
  show ?thesis
  proof (cases r)
    case (Inl e)
    then show ?thesis using Pair err by simp
  next
    case (Inr out)
    then show ?thesis using Pair exh brk by (cases out) simp_all
  qed
qed

lemma rev_upt_Suc: "rev [0..<Suc i] = i # rev [0..<i]"
  by simp

lemma guesses_lt: "\<forall>g\<in>set [0..<256]. g < (256::nat)"
  by simp

lemma inv_D_step:
  assumes "inv_D (Suc i) D" "i < BLOCKSIZE" "g < 256"
  shows "inv_D i (D[i := g XOR (BLOCKSIZE - i)])"
proof -
  have "BLOCKSIZE - i < 256" by (simp add: BLOCKSIZE_def)
  then have "g XOR (BLOCKSIZE - i) < 256" using assms(3) by (intro xor_lt_256)
  moreover have "take i D = replicate i 0"
  proof -
    have "take i D = take i (take (Suc i) D)" by (simp add: min_def)
    also have "\<dots> = take i (replicate (Suc i) 0)" using assms(1) by (simp only: inv_D_def)
    also have "\<dots> = replicate i 0" unfolding take_replicate by (simp add: min_def)
    finally show ?thesis .
  qed
  ultimately show ?thesis
    using assms(1) by (simp add: inv_D_def wf_D_def is_bytes_update)
qed

lemma inv_D_wf: "inv_D n D \<Longrightarrow> wf_D D"
  by (simp add: inv_D_def)

lemma index_loop_log:
  assumes "n \<le> BLOCKSIZE" "inv_D n D"
    and "c \<in> set (snd (index_loop chk block D (rev [0..<n])))"
  shows "c_index c < n \<and> c_guess c < 256 \<and> c_block c = block \<and>
         inv_D (Suc (c_index c)) (c_D c) \<and> (\<forall>j\<ge>n. c_D c ! j = D ! j) \<and>
         (c_kind c = Probe \<longrightarrow> c_iv c = probe_form (c_D c) (c_index c) (c_guess c)) \<and>
         (c_kind c = Confirmation \<longrightarrow> c_index c = BLOCKSIZE - 1 \<and>
            c_iv c = confirm_form (probe_form (c_D c) (c_index c) (c_guess c)) (c_index c))"
  using assms
proof (induction n arbitrary: D)
  case 0
  then show ?case by simp
next
  case (Suc i)
  have i: "i < BLOCKSIZE" using Suc.prems by simp
  have wf: "wf_D D" using Suc.prems by (simp add: inv_D_wf)
  note gl = guess_loop_log[OF wf i guesses_lt]
  show ?case
  proof (cases rule: index_loop_Cons_cases[of chk block D i "rev [0..<i]"])
    case (err e)
    then have "c \<in> set (snd (guess_loop chk block D i [0..<256]))"
      using Suc.prems by (simp only: rev_upt_Suc snd_conv)
    from gl[OF this] Suc.prems(2) show ?thesis by auto
  next
    case exh
    then have "c \<in> set (snd (guess_loop chk block D i [0..<256]))"
      using Suc.prems by (simp only: rev_upt_Suc snd_conv)
    from gl[OF this] Suc.prems(2) show ?thesis by auto
  next
    case (brk D')
    from guess_loop_break[OF wf i guesses_lt brk(1)]
    obtain g where g: "g < 256" "D' = D[i := g XOR (BLOCKSIZE - i)]" by auto
    have inv': "inv_D i D'" using inv_D_step[OF Suc.prems(2) i g(1)] g(2) by simp
    have "c \<in> set (snd (guess_loop chk block D i [0..<256])) \<or>
          c \<in> set (snd (index_loop chk block D' (rev [0..<i])))"
      using Suc.prems(3) brk(2) by (simp only: rev_upt_Suc snd_prepend set_append Un_iff)
    then show ?thesis
    proof
      assume "c \<in> set (snd (guess_loop chk block D i [0..<256]))"
      from gl[OF this] Suc.prems(2) show ?thesis by auto
    next
      assume a: "c \<in> set (snd (index_loop chk block D' (rev [0..<i])))"
      have "i \<le> BLOCKSIZE" using i by simp
      from Suc.IH[OF this inv' a] show ?thesis
        by (auto simp: g(2))
    qed
  qed
qed

lemma index_loop_result:
  assumes "n \<le> BLOCKSIZE" "inv_D n D"
    and "fst (index_loop chk block D (rev [0..<n])) = Inr D'"
  shows "wf_D D' \<and> (\<forall>j\<ge>n. D' ! j = D ! j)"
  using assms
proof (induction n arbitrary: D)
  case 0
  then show ?case by (simp add: inv_D_wf)
next
  case (Suc i)
  have i: "i < BLOCKSIZE" using Suc.prems by simp
  have wf: "wf_D D" using Suc.prems by (simp add: inv_D_wf)
  show ?case
  proof (cases rule: index_loop_Cons_cases[of chk block D i "rev [0..<i]"])
    case (err e)
    then show ?thesis using Suc.prems(3) by (simp only: rev_upt_Suc fst_conv) simp
  next
    case exh
    then show ?thesis using Suc.prems(3) by (simp only: rev_upt_Suc fst_conv) simp
  next
    case (brk D1)
    from guess_loop_break[OF wf i guesses_lt brk(1)]
    obtain g where g: "g < 256" "D1 = D[i := g XOR (BLOCKSIZE - i)]" by auto
    have inv': "inv_D i D1" using inv_D_step[OF Suc.prems(2) i g(1)] g(2) by simp
    have r: "fst (index_loop chk block D1 (rev [0..<i])) = Inr D'"
      using Suc.prems(3) brk(2) by (simp only: rev_upt_Suc fst_prepend)
    have "i \<le> BLOCKSIZE" using i by simp
    from Suc.IH[OF this inv' r] show ?thesis by (auto simp: g(2))
  qed
qed

lemma index_loop_error:
  assumes "n \<le> BLOCKSIZE" "inv_D n D"
    and "fst (index_loop chk block D (rev [0..<n])) = Inl e"
  shows "e = SystemExit 1 \<or>
         (\<exists>c\<in>set (snd (index_loop chk block D (rev [0..<n]))). chk (c_block c) (c_iv c) = Inl e)"
  using assms
proof (induction n arbitrary: D)
  case 0
  then show ?case by simp
next
  case (Suc i)
  have i: "i < BLOCKSIZE" using Suc.prems by simp
  have wf: "wf_D D" using Suc.prems by (simp add: inv_D_wf)
  show ?case
  proof (cases rule: index_loop_Cons_cases[of chk block D i "rev [0..<i]"])
    case (err e')
    then have "e' = e" using Suc.prems(3) by (simp only: rev_upt_Suc fst_conv) simp
    with guess_loop_error[OF wf i guesses_lt err(1)] err(2)
    show ?thesis by (simp only: rev_upt_Suc snd_conv) simp
  next
    case exh
    then show ?thesis using Suc.prems(3) by (simp only: rev_upt_Suc fst_conv) simp
  next
    case (brk D1)
    from guess_loop_break[OF wf i guesses_lt brk(1)]
    obtain g where g: "g < 256" "D1 = D[i := g XOR (BLOCKSIZE - i)]" by auto
    have inv': "inv_D i D1" using inv_D_step[OF Suc.prems(2) i g(1)] g(2) by simp
    have r: "fst (index_loop chk block D1 (rev [0..<i])) = Inl e"
      using Suc.prems(3) brk(2) by (simp only: rev_upt_Suc fst_prepend)
    have "i \<le> BLOCKSIZE" using i by simp
    from Suc.IH[OF this inv' r] brk(2) show ?thesis
      by (simp only: rev_upt_Suc snd_prepend set_append) blast
  qed
qed

lemma index_loop_count:
  assumes "n \<le> BLOCKSIZE" "inv_D n D"
  shows "length (snd (index_loop chk block D (rev [0..<n])))
           \<le> 256 * n + (if n = BLOCKSIZE then 256 else 0)"
  using assms
proof (induction n arbitrary: D)
  case 0
  then show ?case by simp
next
  case (Suc i)
  have i: "i < BLOCKSIZE" using Suc.prems by simp
  have wf: "wf_D D" using Suc.prems by (simp add: inv_D_wf)
  have gc: "length (snd (guess_loop chk block D i [0..<256]))
              \<le> 256 + (if Suc i = BLOCKSIZE then 256 else 0)"
    using guess_loop_count[OF wf i guesses_lt, of chk block] i by (auto split: if_splits)
  show ?case
  proof (cases rule: index_loop_Cons_cases[of chk block D i "rev [0..<i]"])
    case (err e')
    show ?thesis using gc unfolding rev_upt_Suc err(2) snd_conv by simp
  next
    case exh
    show ?thesis using gc unfolding rev_upt_Suc exh(2) snd_conv by simp
  next
    case (brk D1)
    from guess_loop_break[OF wf i guesses_lt brk(1)]
    obtain g where g: "g < 256" "D1 = D[i := g XOR (BLOCKSIZE - i)]" by auto
    have inv': "inv_D i D1" using inv_D_step[OF Suc.prems(2) i g(1)] g(2) by simp
    have "i \<le> BLOCKSIZE" using i by simp
    from Suc.IH[OF this inv']
    have "length (snd (index_loop chk block D1 (rev [0..<i]))) \<le> 256 * i"
      using i by simp
    then show ?thesis using gc unfolding rev_upt_Suc brk(2) snd_prepend length_append by simp
  qed
qed

lemma guess_loop_sorted:
  assumes "wf_D D" "i < BLOCKSIZE"
  shows "sorted_wrt keeps (snd (guess_loop chk block D i [0..<256]))"
proof -
  have "\<forall>c\<in>set (snd (guess_loop chk block D i [0..<256])).
          \<forall>c'\<in>set (snd (guess_loop chk block D i [0..<256])). keeps c c'"
    using guess_loop_log[OF assms guesses_lt, of _ chk block] by (simp add: keeps_def)
  then show ?thesis
    by (simp add: sorted_wrt_iff_nth_less)
qed

lemma index_loop_sorted:
  assumes "n \<le> BLOCKSIZE" "inv_D n D"
  shows "sorted_wrt keeps (snd (index_loop chk block D (rev [0..<n])))"
  using assms
proof (induction n arbitrary: D)
  case 0
  then show ?case by simp
next
  case (Suc i)
  have i: "i < BLOCKSIZE" using Suc.prems by simp
  have wf: "wf_D D" using Suc.prems by (simp add: inv_D_wf)
  note gs = guess_loop_sorted[OF wf i, of chk block]
  show ?case
  proof (cases rule: index_loop_Cons_cases[of chk block D i "rev [0..<i]"])
    case (err e')
    show ?thesis using gs unfolding rev_upt_Suc err(2) snd_conv .
  next
    case exh
    show ?thesis using gs unfolding rev_upt_Suc exh(2) snd_conv .
  next
    case (brk D1)
    from guess_loop_break[OF wf i guesses_lt brk(1)]
    obtain g where g: "g < 256" "D1 = D[i := g XOR (BLOCKSIZE - i)]" by auto
    have inv': "inv_D i D1" using inv_D_step[OF Suc.prems(2) i g(1)] g(2) by simp
    have le: "i \<le> BLOCKSIZE" using i by simp
    have cross: "keeps c c'"
      if "c \<in> set (snd (guess_loop chk block D i [0..<256]))"
        and "c' \<in> set (snd (index_loop chk block D1 (rev [0..<i])))" for c c'
    proof -
      from guess_loop_log[OF wf i guesses_lt that(1)]
      have c: "c_index c = i" "c_D c = D" by simp_all
      from index_loop_log[OF le inv' that(2)]
      have c': "c_index c' < i" "\<forall>j\<ge>i. c_D c' ! j = D1 ! j" by simp_all
      show ?thesis using c c' by (simp add: keeps_def g(2))
    qed
    show ?thesis
      unfolding rev_upt_Suc brk(2) snd_prepend sorted_wrt_append
      using gs Suc.IH[OF le inv'] cross by blast
  qed
qed

section \<open>One block\<close>

lemma inv_D_init: "inv_D BLOCKSIZE (replicate BLOCKSIZE 0)"
  by (simp add: inv_D_def wf_D_def)

lemma snd_attack_single_block:
  "snd (attack_single_block iv block chk) =
     snd (index_loop chk block (replicate BLOCKSIZE 0) (rev [0..<BLOCKSIZE]))"
  by (simp add: attack_single_block_def split: prod.splits sum.splits)

lemma fst_attack_single_block:
  "fst (attack_single_block iv block chk) =
     (case fst (index_loop chk block (replicate BLOCKSIZE 0) (rev [0..<BLOCKSIZE])) of
        Inl e \<Rightarrow> Inl e | Inr D \<Rightarrow> xor_bytes D iv)"
  by (simp add: attack_single_block_def split: prod.splits sum.splits)

lemma attack_log:
  assumes "c \<in> set (snd (attack_single_block iv block chk))"
  shows "c_index c < BLOCKSIZE \<and> c_guess c < 256 \<and> c_block c = block \<and>
         inv_D (Suc (c_index c)) (c_D c) \<and>
         (c_kind c = Probe \<longrightarrow> c_iv c = probe_form (c_D c) (c_index c) (c_guess c)) \<and>
         (c_kind c = Confirmation \<longrightarrow> c_index c = BLOCKSIZE - 1 \<and>
            c_iv c = confirm_form (probe_form (c_D c) (c_index c) (c_guess c)) (c_index c))"
  using index_loop_log[OF order_refl inv_D_init, of c chk block] assms
  unfolding snd_attack_single_block by blast

lemma probe_form_nth:
  assumes "length D = BLOCKSIZE" "i < BLOCKSIZE" "j < BLOCKSIZE"
  shows "probe_form D i g ! j =
           (if j < i then D ! j else if j = i then g else D ! j XOR (BLOCKSIZE - i))"
proof -
  consider "j < i" | "j = i" | "i < j" by linarith
  then show ?thesis
  proof cases
    case 1
    then show ?thesis using assms by (simp add: probe_form_def nth_append)
  next
    case 2
    then show ?thesis using assms by (simp add: probe_form_def nth_append)
  next
    case 3
    then obtain k where k: "j = Suc i + k" using less_iff_Suc_add by auto
    then show ?thesis using assms 3 by (simp add: probe_form_def nth_append)
  qed
qed

lemma inv_D_zero:
  assumes "inv_D n D" "j < n"
  shows "D ! j = 0"
proof -
  have "D ! j = take n D ! j" using assms(2) by simp
  also have "\<dots> = replicate n 0 ! j" using assms(1) by (simp only: inv_D_def)
  also have "\<dots> = 0" using assms(2) by (rule nth_replicate)
  finally show ?thesis .
qed

text \<open>
  Claim C2. Every first probe that the attack on one block sends to the oracle, at index
  \<open>i\<close> with guess \<open>g\<close>, is a block whose bytes before \<open>i\<close> are zero, whose byte \<open>i\<close> is
  \<open>g\<close>, and whose byte \<open>j\<close> for \<open>j > i\<close> is \<open>D[j] XOR (BLOCKSIZE - i)\<close>, where \<open>D\<close> is the
  content of \<^verbatim>\<open>iv_list\<close> at that moment; and \<open>i < BLOCKSIZE\<close>, \<open>g < 256\<close>.
\<close>

theorem probe_iv_shape:
  assumes "c \<in> set (snd (attack_single_block iv block chk))" and "c_kind c = Probe"
  shows "c_index c < BLOCKSIZE \<and> c_guess c < 256 \<and> c_block c = block \<and>
         length (c_iv c) = BLOCKSIZE \<and>
         (\<forall>j. j < c_index c \<longrightarrow> c_iv c ! j = 0) \<and>
         c_iv c ! c_index c = c_guess c \<and>
         (\<forall>j. c_index c < j \<and> j < BLOCKSIZE \<longrightarrow>
              c_iv c ! j = c_D c ! j XOR (BLOCKSIZE - c_index c))"
proof -
  from attack_log[OF assms(1)] assms(2)
  have i: "c_index c < BLOCKSIZE" and g: "c_guess c < 256" and b: "c_block c = block"
    and inv: "inv_D (Suc (c_index c)) (c_D c)"
    and iv: "c_iv c = probe_form (c_D c) (c_index c) (c_guess c)"
    by simp_all
  have len: "length (c_D c) = BLOCKSIZE" using inv by (simp add: inv_D_def wf_D_def)
  have z: "c_D c ! j = 0" if "j < c_index c" for j
    using inv_D_zero[OF inv, of j] that by simp
  show ?thesis
    using i g b z by (simp add: iv probe_form_nth[OF len i] length_probe_form[OF len i])
qed

theorem probe_iv_shape_witness:
  "Call Probe 14 0 [0,0,0,0,0,0,0,0,0,0,0,0,0,0,0,1] [] [0,0,0,0,0,0,0,0,0,0,0,0,0,0,0,3]
     \<in> set (snd (attack_single_block [] [] always_valid)) \<and>
   c_kind (Call Probe 14 0 [0,0,0,0,0,0,0,0,0,0,0,0,0,0,0,1] [] [0,0,0,0,0,0,0,0,0,0,0,0,0,0,0,3])
     = Probe \<and>
   [0,0,0,0,0,0,0,0,0,0,0,0,0,0,0,3] ! 15 = [0,0,0,0,0,0,0,0,0,0,0,0,0,0,0,1] ! 15 XOR (BLOCKSIZE - 14)"
proof -
  have h: "Call Probe 14 0 [0,0,0,0,0,0,0,0,0,0,0,0,0,0,0,1] [] [0,0,0,0,0,0,0,0,0,0,0,0,0,0,0,3]
     \<in> set (snd (attack_single_block [] [] always_valid))"
    by code_simp
  have k: "c_kind (Call Probe 14 0 [0,0,0,0,0,0,0,0,0,0,0,0,0,0,0,1] [] [0,0,0,0,0,0,0,0,0,0,0,0,0,0,0,3])
     = Probe"
    by simp
  have "\<forall>j. c_index (Call Probe 14 0 [0,0,0,0,0,0,0,0,0,0,0,0,0,0,0,1] []
              [0,0,0,0,0,0,0,0,0,0,0,0,0,0,0,3]) < j \<and> j < BLOCKSIZE \<longrightarrow>
          c_iv (Call Probe 14 0 [0,0,0,0,0,0,0,0,0,0,0,0,0,0,0,1] []
              [0,0,0,0,0,0,0,0,0,0,0,0,0,0,0,3]) ! j =
          c_D (Call Probe 14 0 [0,0,0,0,0,0,0,0,0,0,0,0,0,0,0,1] []
              [0,0,0,0,0,0,0,0,0,0,0,0,0,0,0,3]) ! j XOR
          (BLOCKSIZE - c_index (Call Probe 14 0 [0,0,0,0,0,0,0,0,0,0,0,0,0,0,0,1] []
              [0,0,0,0,0,0,0,0,0,0,0,0,0,0,0,3]))"
    using probe_iv_shape[OF h k] by blast
  then have "15 < BLOCKSIZE \<longrightarrow>
      [0,0,0,0,0,0,0,0,0,0,0,0,0,0,0,3] ! 15 =
      [0,0,0,0,0,0,0,0,0,0,0,0,0,0,0,1::nat] ! 15 XOR (BLOCKSIZE - 14)"
    unfolding call.sel by (rule allE[where x = 15]) simp
  then show ?thesis using h k by (simp add: BLOCKSIZE_def)
qed

section \<open>Properties of the attack on one block, for any oracle\<close>

lemma guess_loop_count_kind:
  assumes "wf_D D" "i < BLOCKSIZE" "\<forall>g\<in>set gs. g < 256"
  shows "length (filter (\<lambda>c. c_kind c = Probe) (snd (guess_loop chk block D i gs))) \<le> length gs \<and>
         length (filter (\<lambda>c. c_kind c = Confirmation) (snd (guess_loop chk block D i gs)))
           \<le> (if i = BLOCKSIZE - 1 then length gs else 0)"
  using assms(3)
proof (induction gs)
  case Nil
  then show ?case by simp
next
  case (Cons g gs)
  have g: "g < 256" using Cons.prems by simp
  show ?case
    using Cons unfolding guess_loop_step[OF assms(1,2) g]
    by (auto split: sum.splits prod.splits if_splits)
qed

lemma index_loop_count_kind:
  assumes "n \<le> BLOCKSIZE" "inv_D n D"
  shows "length (filter (\<lambda>c. c_kind c = Probe) (snd (index_loop chk block D (rev [0..<n]))))
           \<le> 256 * n \<and>
         length (filter (\<lambda>c. c_kind c = Confirmation) (snd (index_loop chk block D (rev [0..<n]))))
           \<le> (if n = BLOCKSIZE then 256 else 0)"
  using assms
proof (induction n arbitrary: D)
  case 0
  then show ?case by simp
next
  case (Suc i)
  have i: "i < BLOCKSIZE" using Suc.prems by simp
  have wf: "wf_D D" using Suc.prems by (simp add: inv_D_wf)
  have gc: "length (filter (\<lambda>c. c_kind c = Probe) (snd (guess_loop chk block D i [0..<256]))) \<le> 256"
    "length (filter (\<lambda>c. c_kind c = Confirmation) (snd (guess_loop chk block D i [0..<256])))
              \<le> (if Suc i = BLOCKSIZE then 256 else 0)"
    using guess_loop_count_kind[OF wf i guesses_lt, of chk block] i by (auto split: if_splits)
  show ?case
  proof (cases rule: index_loop_Cons_cases[of chk block D i "rev [0..<i]"])
    case (err e')
    show ?thesis using gc unfolding rev_upt_Suc err(2) snd_conv by simp
  next
    case exh
    show ?thesis using gc unfolding rev_upt_Suc exh(2) snd_conv by simp
  next
    case (brk D1)
    from guess_loop_break[OF wf i guesses_lt brk(1)]
    obtain g where g: "g < 256" "D1 = D[i := g XOR (BLOCKSIZE - i)]" by auto
    have inv': "inv_D i D1" using inv_D_step[OF Suc.prems(2) i g(1)] g(2) by simp
    have "i \<le> BLOCKSIZE" using i by simp
    from Suc.IH[OF this inv']
    have "length (filter (\<lambda>c. c_kind c = Probe) (snd (index_loop chk block D1 (rev [0..<i])))) \<le> 256 * i"
      "length (filter (\<lambda>c. c_kind c = Confirmation) (snd (index_loop chk block D1 (rev [0..<i])))) = 0"
      using i by simp_all
    then show ?thesis using gc
      unfolding rev_upt_Suc brk(2) snd_prepend filter_append length_append by simp
  qed
qed

lemma split_kinds:
  "length cs = length (filter (\<lambda>c. c_kind c = Probe) cs)
             + length (filter (\<lambda>c. c_kind c = Confirmation) cs)"
proof (induction cs)
  case Nil
  then show ?case by simp
next
  case (Cons c cs)
  then show ?case by (cases "c_kind c") simp_all
qed

text \<open>
  Claim C9, as amended. For any oracle, the attack on one block makes at most
  \<open>BLOCKSIZE * 256\<close> first probes and at most 256 confirmation probes, hence at most
  \<open>BLOCKSIZE * 256 + 256\<close> calls of the oracle in all.
\<close>

theorem oracle_calls_bound:
  "length (filter (\<lambda>c. c_kind c = Probe) (snd (attack_single_block iv block chk)))
     \<le> BLOCKSIZE * 256 \<and>
   length (filter (\<lambda>c. c_kind c = Confirmation) (snd (attack_single_block iv block chk)))
     \<le> 256 \<and>
   length (snd (attack_single_block iv block chk)) \<le> BLOCKSIZE * 256 + 256"
proof -
  from index_loop_count_kind[OF order_refl inv_D_init, of chk block]
  have a: "length (filter (\<lambda>c. c_kind c = Probe) (snd (attack_single_block iv block chk)))
     \<le> BLOCKSIZE * 256"
    and b: "length (filter (\<lambda>c. c_kind c = Confirmation) (snd (attack_single_block iv block chk)))
     \<le> 256"
    unfolding snd_attack_single_block by (simp_all add: mult.commute)
  from a b split_kinds[of "snd (attack_single_block iv block chk)"]
  show ?thesis by linarith
qed

theorem oracle_calls_bound_witness:
  "length (snd (attack_single_block [] [] always_valid)) \<le> BLOCKSIZE * 256 + 256"
  using oracle_calls_bound[of "[]" "[]" always_valid] by blast

lemma index_loop_final_keeps:
  assumes "n \<le> BLOCKSIZE" "inv_D n D"
    and "fst (index_loop chk block D (rev [0..<n])) = Inr D'"
    and "c \<in> set (snd (index_loop chk block D (rev [0..<n])))"
  shows "\<forall>j. c_index c < j \<longrightarrow> D' ! j = c_D c ! j"
  using assms
proof (induction n arbitrary: D)
  case 0
  then show ?case by simp
next
  case (Suc i)
  have i: "i < BLOCKSIZE" using Suc.prems by simp
  have wf: "wf_D D" using Suc.prems by (simp add: inv_D_wf)
  show ?case
  proof (cases rule: index_loop_Cons_cases[of chk block D i "rev [0..<i]"])
    case (err e)
    then show ?thesis using Suc.prems(3) by (simp only: rev_upt_Suc fst_conv) simp
  next
    case exh
    then show ?thesis using Suc.prems(3) by (simp only: rev_upt_Suc fst_conv) simp
  next
    case (brk D1)
    from guess_loop_break[OF wf i guesses_lt brk(1)]
    obtain g where g: "g < 256" "D1 = D[i := g XOR (BLOCKSIZE - i)]" by auto
    have inv': "inv_D i D1" using inv_D_step[OF Suc.prems(2) i g(1)] g(2) by simp
    have r: "fst (index_loop chk block D1 (rev [0..<i])) = Inr D'"
      using Suc.prems(3) brk(2) by (simp only: rev_upt_Suc fst_prepend)
    have le: "i \<le> BLOCKSIZE" using i by simp
    have "c \<in> set (snd (guess_loop chk block D i [0..<256])) \<or>
          c \<in> set (snd (index_loop chk block D1 (rev [0..<i])))"
      using Suc.prems(4) brk(2) by (simp only: rev_upt_Suc snd_prepend set_append Un_iff)
    then show ?thesis
    proof
      assume "c \<in> set (snd (guess_loop chk block D i [0..<256]))"
      from guess_loop_log[OF wf i guesses_lt this]
      have c: "c_index c = i" "c_D c = D" by simp_all
      from index_loop_result[OF le inv' r] have "\<forall>j\<ge>i. D' ! j = D1 ! j" by simp
      then show ?thesis using c by (auto simp: g(2))
    next
      assume "c \<in> set (snd (index_loop chk block D1 (rev [0..<i])))"
      from Suc.IH[OF le inv' r this] show ?thesis .
    qed
  qed
qed

lemma xor_bytes_Inr:
  assumes "xor_bytes a b = Inr p"
  shows "length a = length b \<and> p = map2 (XOR) a b"
  using assms by (auto simp: xor_bytes_def bytes_of_def split: if_splits)

text \<open>
  Claim C8. In the run of the attack on one block, the indices of the successive oracle
  calls never increase, and the bytes of \<^verbatim>\<open>iv_list\<close> above the index being solved at some
  call (the bytes already set) have the same value at every later call; when the attack
  returns, the plaintext is computed from these same values. Every first probe at index
  \<open>i\<close> carries, at each position \<open>j > i\<close>, the byte \<open>D[j] XOR (BLOCKSIZE - i)\<close>.
\<close>

theorem recovered_bytes_kept:
  "(\<forall>m n. m < n \<and> n < length (snd (attack_single_block iv block chk)) \<longrightarrow>
      c_index (snd (attack_single_block iv block chk) ! n)
        \<le> c_index (snd (attack_single_block iv block chk) ! m) \<and>
      (\<forall>j. c_index (snd (attack_single_block iv block chk) ! m) < j \<and> j < BLOCKSIZE \<longrightarrow>
           c_D (snd (attack_single_block iv block chk) ! n) ! j
             = c_D (snd (attack_single_block iv block chk) ! m) ! j)) \<and>
   (\<forall>plain. fst (attack_single_block iv block chk) = Inr plain \<longrightarrow>
      (\<forall>c\<in>set (snd (attack_single_block iv block chk)).
         \<forall>j. c_index c < j \<and> j < BLOCKSIZE \<longrightarrow> plain ! j = c_D c ! j XOR iv ! j)) \<and>
   (\<forall>c\<in>set (snd (attack_single_block iv block chk)). c_kind c = Probe \<longrightarrow>
      (\<forall>j. c_index c < j \<and> j < BLOCKSIZE \<longrightarrow>
           c_iv c ! j = c_D c ! j XOR (BLOCKSIZE - c_index c)))"
proof -
  let ?il = "index_loop chk block (replicate BLOCKSIZE 0) (rev [0..<BLOCKSIZE])"
  define r where "r = fst (attack_single_block iv block chk)"
  define cs where "cs = snd (attack_single_block iv block chk)"
  have cs: "cs = snd ?il"
    unfolding cs_def by (rule snd_attack_single_block)
  have r: "r = (case fst ?il of Inl e \<Rightarrow> Inl e | Inr D \<Rightarrow> xor_bytes D iv)"
    unfolding r_def by (rule fst_attack_single_block)
  have "sorted_wrt keeps cs"
    unfolding cs by (rule index_loop_sorted[OF order_refl inv_D_init])
  then have 1: "\<forall>m n. m < n \<and> n < length cs \<longrightarrow>
            c_index (cs ! n) \<le> c_index (cs ! m) \<and>
            (\<forall>j. c_index (cs ! m) < j \<and> j < BLOCKSIZE \<longrightarrow>
                 c_D (cs ! n) ! j = c_D (cs ! m) ! j)"
    by (simp add: sorted_wrt_iff_nth_less keeps_def)
  have 2: "plain ! j = c_D c ! j XOR iv ! j"
    if "r = Inr plain" "c \<in> set cs" "c_index c < j" "j < BLOCKSIZE" for plain c j
  proof -
    from that(1) r obtain D where D: "fst ?il = Inr D" "xor_bytes D iv = Inr plain"
      by (auto split: sum.splits)
    from index_loop_result[OF order_refl inv_D_init D(1)] have len: "length D = BLOCKSIZE"
      by (simp add: wf_D_def)
    from xor_bytes_Inr[OF D(2)] len have p: "length iv = BLOCKSIZE" "plain = map2 (XOR) D iv"
      by simp_all
    from index_loop_final_keeps[OF order_refl inv_D_init D(1)] that(2,3)
    have "D ! j = c_D c ! j" unfolding cs by blast
    then show ?thesis using p len that(4) by simp
  qed
  have 3: "c_iv c ! j = c_D c ! j XOR (BLOCKSIZE - c_index c)"
    if "c \<in> set cs" "c_kind c = Probe" "c_index c < j" "j < BLOCKSIZE" for c j
  proof -
    have "c \<in> set (snd (attack_single_block iv block chk))" using that(1) cs_def by simp
    from attack_log[OF this] that(2)
    have i: "c_index c < BLOCKSIZE" and inv: "inv_D (Suc (c_index c)) (c_D c)"
      and iv: "c_iv c = probe_form (c_D c) (c_index c) (c_guess c)"
      by simp_all
    have len: "length (c_D c) = BLOCKSIZE" using inv by (simp add: inv_D_def wf_D_def)
    show ?thesis using that(3,4) by (simp add: iv probe_form_nth[OF len i])
  qed
  show ?thesis using 1 2 3 unfolding r_def cs_def by blast
qed

theorem recovered_bytes_kept_witness:
  "(2::nat) < 4 \<and> 4 < length (snd (attack_single_block [] [] always_valid)) \<and>
   c_index (snd (attack_single_block [] [] always_valid) ! 2) < 15 \<and> 15 < BLOCKSIZE \<and>
   c_D (snd (attack_single_block [] [] always_valid) ! 4) ! 15
     = c_D (snd (attack_single_block [] [] always_valid) ! 2) ! 15"
proof -
  have h: "(2::nat) < 4 \<and> 4 < length (snd (attack_single_block [] [] always_valid))"
    by code_simp
  have k: "c_index (snd (attack_single_block [] [] always_valid) ! 2) < 15 \<and> 15 < BLOCKSIZE"
    by code_simp
  from recovered_bytes_kept[of "[]" "[]" always_valid] h k show ?thesis by blast
qed

text \<open>
  Claim C10. When the predecessor block \<open>iv\<close> is a bytes object of length \<open>BLOCKSIZE\<close>, every
  call of \<^verbatim>\<open>xor\<close> made by the attack on one block gets two sequences of the same length
  and returns: for each probe the \<open>BLOCKSIZE - (i + 1)\<close> bytes of \<^verbatim>\<open>iv_list\<close> above \<open>i\<close> and as
  many pad bytes, and at the end the \<open>BLOCKSIZE\<close> bytes of \<^verbatim>\<open>iv_list\<close> and \<open>iv\<close>. The attack
  raises \<^verbatim>\<open>AssertionError\<close> only if a call of the oracle does.
\<close>

theorem xor_assertion_never_fails:
  assumes "length iv = BLOCKSIZE" and "is_bytes iv"
  shows "(\<forall>c\<in>set (snd (attack_single_block iv block chk)).
            length (drop (c_index c + 1) (c_D c)) = BLOCKSIZE - (c_index c + 1) \<and>
            length (replicate (BLOCKSIZE - (c_index c + 1)) (BLOCKSIZE - c_index c))
              = BLOCKSIZE - (c_index c + 1) \<and>
            (\<exists>suf. xor_bytes (drop (c_index c + 1) (c_D c))
                     (replicate (BLOCKSIZE - (c_index c + 1)) (BLOCKSIZE - c_index c)) = Inr suf)) \<and>
         (\<forall>D. fst (index_loop chk block (replicate BLOCKSIZE 0) (rev [0..<BLOCKSIZE])) = Inr D \<longrightarrow>
            length D = BLOCKSIZE \<and> length iv = BLOCKSIZE \<and>
            (\<exists>plain. xor_bytes D iv = Inr plain \<and>
                      fst (attack_single_block iv block chk) = Inr plain)) \<and>
         (\<forall>e. fst (attack_single_block iv block chk) = Inl e \<longrightarrow>
            e \<noteq> AssertionError \<or>
            (\<exists>c\<in>set (snd (attack_single_block iv block chk)).
               chk (c_block c) (c_iv c) = Inl AssertionError))"
proof -
  let ?il = "index_loop chk block (replicate BLOCKSIZE 0) (rev [0..<BLOCKSIZE])"
  have 1: "length (drop (c_index c + 1) (c_D c)) = BLOCKSIZE - (c_index c + 1) \<and>
            length (replicate (BLOCKSIZE - (c_index c + 1)) (BLOCKSIZE - c_index c))
              = BLOCKSIZE - (c_index c + 1) \<and>
            (\<exists>suf. xor_bytes (drop (c_index c + 1) (c_D c))
                     (replicate (BLOCKSIZE - (c_index c + 1)) (BLOCKSIZE - c_index c)) = Inr suf)"
    if "c \<in> set (snd (attack_single_block iv block chk))" for c
  proof -
    from attack_log[OF that]
    have i: "c_index c < BLOCKSIZE" and inv: "inv_D (Suc (c_index c)) (c_D c)" by simp_all
    have wf: "length (c_D c) = BLOCKSIZE" "is_bytes (c_D c)"
      using inv by (simp_all add: inv_D_def wf_D_def)
    have p: "BLOCKSIZE - c_index c < 256" by (simp add: BLOCKSIZE_def)
    have "is_bytes (map (\<lambda>d. d XOR (BLOCKSIZE - c_index c)) (drop (Suc (c_index c)) (c_D c)))"
      using wf(2) p by (intro is_bytes_map_xor is_bytes_drop)
    then show ?thesis
      using wf(1) by (simp add: xor_bytes_def bytes_of_def map2_xor_replicate)
  qed
  have 2: "length D = BLOCKSIZE \<and> length iv = BLOCKSIZE \<and>
            (\<exists>plain. xor_bytes D iv = Inr plain \<and>
                      fst (attack_single_block iv block chk) = Inr plain)"
    if "fst ?il = Inr D" for D
  proof -
    from index_loop_result[OF order_refl inv_D_init that]
    have wf: "length D = BLOCKSIZE" "is_bytes D" by (simp_all add: wf_D_def)
    have "xor_bytes D iv = Inr (map2 (XOR) D iv)"
      using wf assms by (simp add: xor_bytes_def bytes_of_def is_bytes_map2_xor)
    then show ?thesis using wf assms that by (simp add: fst_attack_single_block)
  qed
  have 3: "e \<noteq> AssertionError \<or>
            (\<exists>c\<in>set (snd (attack_single_block iv block chk)).
               chk (c_block c) (c_iv c) = Inl AssertionError)"
    if "fst (attack_single_block iv block chk) = Inl e" for e
  proof (cases "fst ?il")
    case (Inl e')
    then have "e' = e" using that by (simp add: fst_attack_single_block)
    with index_loop_error[OF order_refl inv_D_init Inl]
    show ?thesis unfolding snd_attack_single_block by auto
  next
    case (Inr D)
    from 2[OF this] that show ?thesis by simp
  qed
  show ?thesis using 1 2 3 by blast
qed

theorem xor_assertion_never_fails_witness:
  "length (replicate 16 (0::nat)) = BLOCKSIZE \<and> is_bytes (replicate 16 0) \<and>
   fst (index_loop always_valid [] (replicate BLOCKSIZE 0) (rev [0..<BLOCKSIZE]))
     = Inr [16,15,14,13,12,11,10,9,8,7,6,5,4,3,2,1] \<and>
   length [16,15,14,13,12,11,10,9,8,7,6,5,4,3,2,1::nat] = BLOCKSIZE"
proof -
  have h: "length (replicate 16 (0::nat)) = BLOCKSIZE" by (simp add: BLOCKSIZE_def)
  have k: "is_bytes (replicate 16 0)" by simp
  have r: "fst (index_loop always_valid [] (replicate BLOCKSIZE 0) (rev [0..<BLOCKSIZE]))
     = Inr [16,15,14,13,12,11,10,9,8,7,6,5,4,3,2,1]"
    by code_simp
  from xor_assertion_never_fails[OF h k, of "[]" always_valid] r h k show ?thesis by blast
qed

section \<open>The steps of the inner loop\<close>

lemma probe_iv_Inr_length:
  assumes "probe_iv D i g = Inr iv1" "length D = BLOCKSIZE" "i < BLOCKSIZE"
  shows "length iv1 = BLOCKSIZE"
  using assms
  by (auto simp: probe_iv_def bytes_of_def to_bytes_def xor_bytes_def split: if_splits)

text \<open>
  Claim C3. At the last index, when the oracle reports valid padding for the probe of a
  guess \<open>g\<close>, exactly one further call follows, with the probe changed only at position
  \<open>BLOCKSIZE - 2\<close>, where the byte is incremented modulo 256. If that call reports valid
  padding too, the loop ends with \<open>D[BLOCKSIZE - 1] = g XOR 1\<close>; if not, the loop goes on
  with the remaining guesses at the same index and with \<open>D\<close> unchanged.
\<close>

theorem last_byte_confirmation:
  assumes "length D = BLOCKSIZE"
    and "probe_iv D (BLOCKSIZE - 1) g = Inr iv1"
    and "chk block iv1 = Inr (dk, True)"
    and "chk block (iv1[BLOCKSIZE - 2 := (iv1 ! (BLOCKSIZE - 2) + 1) mod 256]) = Inr (dk2, r2)"
  shows "guess_loop chk block D (BLOCKSIZE - 1) (g # gs) =
           (if r2 then
              (Inr (Break (D[BLOCKSIZE - 1 := g XOR 1])),
               [Call Probe (BLOCKSIZE - 1) g D block iv1,
                Call Confirmation (BLOCKSIZE - 1) g D block
                  (iv1[BLOCKSIZE - 2 := (iv1 ! (BLOCKSIZE - 2) + 1) mod 256])])
            else
              prepend
               [Call Probe (BLOCKSIZE - 1) g D block iv1,
                Call Confirmation (BLOCKSIZE - 1) g D block
                  (iv1[BLOCKSIZE - 2 := (iv1 ! (BLOCKSIZE - 2) + 1) mod 256])]
               (guess_loop chk block D (BLOCKSIZE - 1) gs))"
proof -
  have i: "BLOCKSIZE - 1 < BLOCKSIZE" by (simp add: BLOCKSIZE_def)
  have l: "length iv1 = BLOCKSIZE" by (rule probe_iv_Inr_length[OF assms(2,1) i])
  have e: "BLOCKSIZE - 1 - 1 = BLOCKSIZE - 2" by simp
  have c: "confirm_iv iv1 (BLOCKSIZE - 1) =
             Inr (iv1[BLOCKSIZE - 2 := (iv1 ! (BLOCKSIZE - 2) + 1) mod 256])"
    using confirm_iv_ok[of "BLOCKSIZE - 1" iv1] l unfolding e by (simp add: BLOCKSIZE_def)
  have s: "set_item D (BLOCKSIZE - 1) (g XOR (BLOCKSIZE - (BLOCKSIZE - 1)))
             = Inr (D[BLOCKSIZE - 1 := g XOR 1])"
    using assms(1) by (simp add: set_item_def BLOCKSIZE_def)
  show ?thesis
    unfolding guess_loop.simps assms(2,3,4) c s sum.case prod.case by simp
qed

theorem last_byte_confirmation_witness:
  "length (replicate 16 (0::nat)) = BLOCKSIZE \<and>
   probe_iv (replicate 16 0) (BLOCKSIZE - 1) 0 = Inr (replicate 16 0) \<and>
   always_valid [] (replicate 16 0) = Inr ([], True) \<and>
   always_valid []
     ((replicate 16 0)[BLOCKSIZE - 2 := (replicate 16 0 ! (BLOCKSIZE - 2) + 1) mod 256])
     = Inr ([], True) \<and>
   fst (guess_loop always_valid [] (replicate 16 0) (BLOCKSIZE - 1) [0])
     = Inr (Break ((replicate 16 0)[BLOCKSIZE - 1 := 0 XOR 1]))"
proof -
  have h1: "length (replicate 16 (0::nat)) = BLOCKSIZE" by (simp add: BLOCKSIZE_def)
  have h2: "probe_iv (replicate 16 0) (BLOCKSIZE - 1) 0 = Inr (replicate 16 0)"
    by code_simp
  have h3: "always_valid [] (replicate 16 0) = Inr ([], True)"
    by (simp add: always_valid_def)
  have h4: "always_valid []
     ((replicate 16 0)[BLOCKSIZE - 2 := (replicate 16 0 ! (BLOCKSIZE - 2) + 1) mod 256])
     = Inr ([], True)"
    by (simp add: always_valid_def)
  from last_byte_confirmation[of "replicate 16 0" 0 "replicate 16 0" always_valid "[]" "[]" "[]"
      True "[]", OF h1 h2 h3 h4]
  have "fst (guess_loop always_valid [] (replicate 16 0) (BLOCKSIZE - 1) [0])
     = Inr (Break ((replicate 16 0)[BLOCKSIZE - 1 := 0 XOR 1]))"
    by (simp only: if_True fst_conv)
  with h1 h2 h3 h4 show ?thesis by blast
qed

lemma guess_loop_first_valid:
  assumes "length D = BLOCKSIZE" "i < BLOCKSIZE" "i \<noteq> BLOCKSIZE - 1"
    and "\<And>g'. g' \<in> set (gs @ [g]) \<Longrightarrow> probe_iv D i g' = Inr (p g')"
    and "\<And>g'. g' \<in> set gs \<Longrightarrow> \<exists>dk. chk block (p g') = Inr (dk, False)"
    and "chk block (p g) = Inr (dk, True)"
  shows "guess_loop chk block D i (gs @ g # rest) =
           (Inr (Break (D[i := g XOR (BLOCKSIZE - i)])),
            map (\<lambda>g'. Call Probe i g' D block (p g')) (gs @ [g]))"
  using assms(4,5)
proof (induction gs)
  case Nil
  have s: "set_item D i (g XOR (BLOCKSIZE - i)) = Inr (D[i := g XOR (BLOCKSIZE - i)])"
    using assms(1,2) by (simp add: set_item_def)
  have "probe_iv D i g = Inr (p g)" using Nil(1) by simp
  then show ?case using assms(3,6) s by simp
next
  case (Cons a gs)
  have pa: "probe_iv D i a = Inr (p a)" using Cons.prems(1) by simp
  obtain dka where ca: "chk block (p a) = Inr (dka, False)" using Cons.prems(2) by auto
  have "guess_loop chk block D i (gs @ g # rest) =
           (Inr (Break (D[i := g XOR (BLOCKSIZE - i)])),
            map (\<lambda>g'. Call Probe i g' D block (p g')) (gs @ [g]))"
    using Cons.prems by (intro Cons.IH) auto
  then show ?case using pa ca by simp
qed

text \<open>
  Claim C4. At an index \<open>i\<close> other than the last, the guesses are probed in ascending order
  from 0; when \<open>g\<close> is the first guess whose probe the oracle reports valid, the calls made
  at this index are exactly the probes of \<open>0, \<dots>, g\<close>, with no confirmation probe, the loop
  ends with \<open>D[i] = g XOR (BLOCKSIZE - i)\<close>, and the attack goes on with index \<open>i - 1\<close>.
\<close>

theorem first_valid_guess_accepted:
  assumes "length D = BLOCKSIZE" and "i < BLOCKSIZE" and "i \<noteq> BLOCKSIZE - 1" and "g < 256"
    and "\<And>g'. g' \<le> g \<Longrightarrow> probe_iv D i g' = Inr (p g')"
    and "\<And>g'. g' < g \<Longrightarrow> \<exists>dk. chk block (p g') = Inr (dk, False)"
    and "chk block (p g) = Inr (dk, True)"
  shows "guess_loop chk block D i [0..<256] =
           (Inr (Break (D[i := g XOR (BLOCKSIZE - i)])),
            map (\<lambda>g'. Call Probe i g' D block (p g')) [0..<Suc g]) \<and>
         index_loop chk block D (rev [0..<Suc i]) =
           prepend (map (\<lambda>g'. Call Probe i g' D block (p g')) [0..<Suc g])
             (index_loop chk block (D[i := g XOR (BLOCKSIZE - i)]) (rev [0..<i]))"
proof -
  have sp: "[0..<256] = [0..<g] @ g # [Suc g..<256]"
    using assms(4) by (metis less_imp_le_nat upt_add_eq_append upt_conv_Cons zero_le le_add_diff_inverse add_0)
  have gl: "guess_loop chk block D i [0..<256] =
           (Inr (Break (D[i := g XOR (BLOCKSIZE - i)])),
            map (\<lambda>g'. Call Probe i g' D block (p g')) [0..<Suc g])"
  proof -
    have a: "probe_iv D i g' = Inr (p g')" if "g' \<in> set ([0..<g] @ [g])" for g'
      using that assms(5)[of g'] by auto
    have b: "\<exists>dk. chk block (p g') = Inr (dk, False)" if "g' \<in> set [0..<g]" for g'
      using that assms(6)[of g'] by auto
    have "[0..<Suc g] = [0..<g] @ [g]" by simp
    moreover have "guess_loop chk block D i ([0..<g] @ g # [Suc g..<256]) =
           (Inr (Break (D[i := g XOR (BLOCKSIZE - i)])),
            map (\<lambda>g'. Call Probe i g' D block (p g')) ([0..<g] @ [g]))"
      using assms(1,2,3) a b assms(7) by (rule guess_loop_first_valid)
    ultimately show ?thesis unfolding sp by simp
  qed
  show ?thesis
    unfolding rev_upt_Suc index_loop.simps gl by simp
qed

theorem first_valid_guess_accepted_witness:
  "length (replicate 16 (0::nat)) = BLOCKSIZE \<and> (3::nat) < BLOCKSIZE \<and> 3 \<noteq> BLOCKSIZE - 1 \<and>
   (2::nat) < 256 \<and>
   probe_iv (replicate 16 0) 3 0 = Inr (probe_form (replicate 16 0) 3 0) \<and>
   probe_iv (replicate 16 0) 3 1 = Inr (probe_form (replicate 16 0) 3 1) \<and>
   probe_iv (replicate 16 0) 3 2 = Inr (probe_form (replicate 16 0) 3 2) \<and>
   valid_if_two [] (probe_form (replicate 16 0) 3 0) = Inr ([], False) \<and>
   valid_if_two [] (probe_form (replicate 16 0) 3 1) = Inr ([], False) \<and>
   valid_if_two [] (probe_form (replicate 16 0) 3 2) = Inr ([], True) \<and>
   fst (guess_loop valid_if_two [] (replicate 16 0) 3 [0..<256])
     = Inr (Break ((replicate 16 0)[3 := 2 XOR (BLOCKSIZE - 3)]))"
proof -
  have h1: "length (replicate 16 (0::nat)) = BLOCKSIZE" by (simp add: BLOCKSIZE_def)
  have h2: "(3::nat) < BLOCKSIZE" by (simp add: BLOCKSIZE_def)
  have h3: "3 \<noteq> BLOCKSIZE - 1" by (simp add: BLOCKSIZE_def)
  have h4: "(2::nat) < 256" by simp
  have h5: "probe_iv (replicate 16 0) 3 g' = Inr (probe_form (replicate 16 0) 3 g')"
    if "g' \<le> 2" for g'
    using that h1 h2 by (simp add: probe_iv_ok probe_form_def)
  have h6: "\<exists>dk. valid_if_two [] (probe_form (replicate 16 0) 3 g') = Inr (dk, False)"
    if "g' < 2" for g'
    using that by (simp add: valid_if_two_def probe_form_def BLOCKSIZE_def)
  have h7: "valid_if_two [] (probe_form (replicate 16 0) 3 2) = Inr ([], True)"
    by (simp add: valid_if_two_def probe_form_def)
  from first_valid_guess_accepted[of "replicate 16 0" 3 2 "probe_form (replicate 16 0) 3"
      valid_if_two "[]" "[]", OF h1 h2 h3 h4 h5 h6 h7]
  have "fst (guess_loop valid_if_two [] (replicate 16 0) 3 [0..<256])
     = Inr (Break ((replicate 16 0)[3 := 2 XOR (BLOCKSIZE - 3)]))"
    by simp
  moreover have "valid_if_two [] (probe_form (replicate 16 0) 3 0) = Inr ([], False)"
    "valid_if_two [] (probe_form (replicate 16 0) 3 1) = Inr ([], False)"
    by (simp_all add: valid_if_two_def probe_form_def BLOCKSIZE_def)
  ultimately show ?thesis using h1 h2 h3 h4 h5[of 0] h5[of 1] h5[of 2] h7 by simp
qed

section \<open>Exhaustion\<close>

lemma guess_loop_exhausted:
  assumes "wf_D D" "i < BLOCKSIZE" "\<forall>g\<in>set gs. g < 256"
    and "\<And>g. g < 256 \<Longrightarrow>
           (\<exists>dk. chk block (probe_form D i g) = Inr (dk, False)) \<or>
           (i = BLOCKSIZE - 1 \<and> (\<exists>dk. chk block (probe_form D i g) = Inr (dk, True)) \<and>
              (\<exists>dk. chk block (confirm_form (probe_form D i g) i) = Inr (dk, False)))"
  shows "fst (guess_loop chk block D i gs) = Inr Exhausted"
  using assms(3)
proof (induction gs)
  case Nil
  then show ?case by simp
next
  case (Cons g gs)
  have g: "g < 256" using Cons.prems by simp
  have ih: "fst (guess_loop chk block D i gs) = Inr Exhausted" using Cons by simp
  from assms(4)[OF g] show ?case
    unfolding guess_loop_step[OF assms(1,2) g] using ih by auto
qed

lemma index_loop_exhausted_at:
  assumes "n \<le> BLOCKSIZE" "inv_D n D"
    and "c \<in> set (snd (index_loop chk block D (rev [0..<n])))"
    and rej: "\<And>g. g < 256 \<Longrightarrow>
           (\<exists>dk. chk block (probe_form (c_D c) (c_index c) g) = Inr (dk, False)) \<or>
           (c_index c = BLOCKSIZE - 1 \<and>
              (\<exists>dk. chk block (probe_form (c_D c) (c_index c) g) = Inr (dk, True)) \<and>
              (\<exists>dk. chk block (confirm_form (probe_form (c_D c) (c_index c) g) (c_index c))
                      = Inr (dk, False)))"
  shows "fst (index_loop chk block D (rev [0..<n])) = Inl (SystemExit 1) \<and>
         (\<forall>c'\<in>set (snd (index_loop chk block D (rev [0..<n]))). c_index c \<le> c_index c')"
  using assms(1,2,3)
proof (induction n arbitrary: D)
  case 0
  then show ?case by simp
next
  case (Suc k)
  have k: "k < BLOCKSIZE" using Suc.prems by simp
  have wf: "wf_D D" using Suc.prems by (simp add: inv_D_wf)
  note gl = guess_loop_log[OF wf k guesses_lt]
  have here: "fst (guess_loop chk block D k [0..<256]) = Inr Exhausted"
    if "c \<in> set (snd (guess_loop chk block D k [0..<256]))"
  proof -
    from gl[OF that] have c: "c_index c = k" "c_D c = D" by simp_all
    show ?thesis
      using wf k guesses_lt rej[unfolded c] by (rule guess_loop_exhausted)
  qed
  have same: "c_index c \<le> c_index c'"
    if "c \<in> set (snd (guess_loop chk block D k [0..<256]))"
      and "c' \<in> set (snd (guess_loop chk block D k [0..<256]))" for c'
    using gl[OF that(1)] gl[OF that(2)] by simp
  show ?case
  proof (cases rule: index_loop_Cons_cases[of chk block D k "rev [0..<k]"])
    case (err e)
    have "c \<in> set (snd (guess_loop chk block D k [0..<256]))"
      using Suc.prems(3) err(2) by (simp only: rev_upt_Suc snd_conv)
    from here[OF this] err(1) show ?thesis by simp
  next
    case exh
    have "c \<in> set (snd (guess_loop chk block D k [0..<256]))"
      using Suc.prems(3) exh(2) by (simp only: rev_upt_Suc snd_conv)
    then show ?thesis
      unfolding rev_upt_Suc exh(2) fst_conv snd_conv using same by blast
  next
    case (brk D1)
    from guess_loop_break[OF wf k guesses_lt brk(1)]
    obtain g where g: "g < 256" "D1 = D[k := g XOR (BLOCKSIZE - k)]" by auto
    have inv': "inv_D k D1" using inv_D_step[OF Suc.prems(2) k g(1)] g(2) by simp
    have le: "k \<le> BLOCKSIZE" using k by simp
    have "c \<in> set (snd (guess_loop chk block D k [0..<256])) \<or>
          c \<in> set (snd (index_loop chk block D1 (rev [0..<k])))"
      using Suc.prems(3) brk(2) by (simp only: rev_upt_Suc snd_prepend set_append Un_iff)
    then show ?thesis
    proof
      assume "c \<in> set (snd (guess_loop chk block D k [0..<256]))"
      from here[OF this] brk(1) show ?thesis by simp
    next
      assume a: "c \<in> set (snd (index_loop chk block D1 (rev [0..<k])))"
      from Suc.IH[OF le inv' a]
      have r: "fst (index_loop chk block D1 (rev [0..<k])) = Inl (SystemExit 1)"
        and l: "\<forall>c'\<in>set (snd (index_loop chk block D1 (rev [0..<k]))). c_index c \<le> c_index c'"
        by simp_all
      from index_loop_log[OF le inv' a] have lt: "c_index c < k" by simp
      have "c_index c \<le> c_index c'"
        if "c' \<in> set (snd (guess_loop chk block D k [0..<256]))" for c'
        using gl[OF that] lt by simp
      then show ?thesis
        unfolding rev_upt_Suc brk(2) fst_prepend snd_prepend set_append using r l by blast
    qed
  qed
qed

text \<open>
  Claim C5. Take a run of the attack on one block that reaches some index \<open>i\<close>: it makes a
  call \<open>c\<close> of the oracle there, \<^verbatim>\<open>iv_list\<close> holding \<open>D\<close> at that moment. If the answers of the
  oracle to the probes of this index, built from this \<open>D\<close>, let no guess in \<open>0..255\<close> be
  accepted (each probe is reported invalid or, \<open>i\<close> being the last index, reported valid
  with its confirmation probe reported invalid), then the attack ends with \<^verbatim>\<open>exit(1)\<close> at
  this index: it returns no block and makes no call at a lower index. The driver ends
  with the same \<^verbatim>\<open>exit(1)\<close>, having made only the calls of this attack: no later block is
  processed.
\<close>

theorem exhaustion_is_fatal:
  assumes "c \<in> set (snd (attack_single_block iv block chk))"
    and "\<And>g p. g < 256 \<Longrightarrow> probe_iv (c_D c) (c_index c) g = Inr p \<Longrightarrow>
           (\<exists>dk. chk block p = Inr (dk, False)) \<or>
           (c_index c = BLOCKSIZE - 1 \<and> (\<exists>dk. chk block p = Inr (dk, True)) \<and>
              (\<exists>p2 dk. confirm_iv p (c_index c) = Inr p2 \<and> chk block p2 = Inr (dk, False)))"
  shows "fst (attack_single_block iv block chk) = Inl (SystemExit 1) \<and>
         (\<forall>c'\<in>set (snd (attack_single_block iv block chk)). c_index c \<le> c_index c') \<and>
         driver_loop chk iv (block # rest) plain
           = (Inl (SystemExit 1), snd (attack_single_block iv block chk))"
proof -
  from attack_log[OF assms(1)]
  have i: "c_index c < BLOCKSIZE" and inv: "inv_D (Suc (c_index c)) (c_D c)" by simp_all
  have wf: "wf_D (c_D c)" using inv by (rule inv_D_wf)
  have rej: "(\<exists>dk. chk block (probe_form (c_D c) (c_index c) g) = Inr (dk, False)) \<or>
           (c_index c = BLOCKSIZE - 1 \<and>
              (\<exists>dk. chk block (probe_form (c_D c) (c_index c) g) = Inr (dk, True)) \<and>
              (\<exists>dk. chk block (confirm_form (probe_form (c_D c) (c_index c) g) (c_index c))
                      = Inr (dk, False)))"
    if "g < 256" for g
  proof -
    have p: "probe_iv (c_D c) (c_index c) g = Inr (probe_form (c_D c) (c_index c) g)"
      using that wf i by (simp add: probe_iv_ok probe_form_def wf_D_def)
    have l: "length (probe_form (c_D c) (c_index c) g) = BLOCKSIZE"
      using wf i by (simp add: length_probe_form wf_D_def)
    have cf: "confirm_iv (probe_form (c_D c) (c_index c) g) (c_index c)
               = Inr (confirm_form (probe_form (c_D c) (c_index c) g) (c_index c))"
      using i l by (simp add: confirm_iv_ok confirm_form_def)
    from assms(2)[OF that p] show ?thesis unfolding cf by auto
  qed
  have c: "c \<in> set (snd (index_loop chk block (replicate BLOCKSIZE 0) (rev [0..<BLOCKSIZE])))"
    using assms(1) by (simp only: snd_attack_single_block)
  have "fst (index_loop chk block (replicate BLOCKSIZE 0) (rev [0..<BLOCKSIZE]))
              = Inl (SystemExit 1) \<and>
        (\<forall>c'\<in>set (snd (index_loop chk block (replicate BLOCKSIZE 0) (rev [0..<BLOCKSIZE]))).
            c_index c \<le> c_index c')"
    using order_refl inv_D_init c rej by (rule index_loop_exhausted_at)
  then have il: "fst (index_loop chk block (replicate BLOCKSIZE 0) (rev [0..<BLOCKSIZE]))
              = Inl (SystemExit 1)"
    and lo: "\<forall>c'\<in>set (snd (attack_single_block iv block chk)). c_index c \<le> c_index c'"
    unfolding snd_attack_single_block by blast+
  from il have a: "fst (attack_single_block iv block chk) = Inl (SystemExit 1)"
    by (simp add: fst_attack_single_block)
  obtain r cs where rc: "attack_single_block iv block chk = (r, cs)"
    by (cases "attack_single_block iv block chk")
  with a have "r = Inl (SystemExit 1)" by simp
  with rc have "driver_loop chk iv (block # rest) plain
           = (Inl (SystemExit 1), snd (attack_single_block iv block chk))"
    by simp
  with a lo show ?thesis by simp
qed

theorem exhaustion_is_fatal_witness:
  "Call Probe 14 0 [0,0,0,0,0,0,0,0,0,0,0,0,0,0,0,1] [] [0,0,0,0,0,0,0,0,0,0,0,0,0,0,0,3]
     \<in> set (snd (attack_single_block [] [] last_only)) \<and>
   fst (attack_single_block [] [] last_only) = Inl (SystemExit 1)"
proof -
  have h1: "Call Probe 14 0 [0,0,0,0,0,0,0,0,0,0,0,0,0,0,0,1] [] [0,0,0,0,0,0,0,0,0,0,0,0,0,0,0,3]
     \<in> set (snd (attack_single_block [] [] last_only))"
    by code_simp
  have wf: "length [0,0,0,0,0,0,0,0,0,0,0,0,0,0,0,1::nat] = BLOCKSIZE"
    "is_bytes [0,0,0,0,0,0,0,0,0,0,0,0,0,0,0,1]" "(14::nat) < BLOCKSIZE"
    by (simp_all add: BLOCKSIZE_def)
  have h2: "(\<exists>dk. last_only [] p = Inr (dk, False)) \<or>
           (c_index (Call Probe 14 0 [0,0,0,0,0,0,0,0,0,0,0,0,0,0,0,1] []
                       [0,0,0,0,0,0,0,0,0,0,0,0,0,0,0,3]) = BLOCKSIZE - 1 \<and>
            (\<exists>dk. last_only [] p = Inr (dk, True)) \<and>
            (\<exists>p2 dk. confirm_iv p (c_index (Call Probe 14 0 [0,0,0,0,0,0,0,0,0,0,0,0,0,0,0,1] []
                       [0,0,0,0,0,0,0,0,0,0,0,0,0,0,0,3])) = Inr p2 \<and>
                     last_only [] p2 = Inr (dk, False)))"
    if "g < 256"
      and "probe_iv (c_D (Call Probe 14 0 [0,0,0,0,0,0,0,0,0,0,0,0,0,0,0,1] []
                       [0,0,0,0,0,0,0,0,0,0,0,0,0,0,0,3]))
             (c_index (Call Probe 14 0 [0,0,0,0,0,0,0,0,0,0,0,0,0,0,0,1] []
                       [0,0,0,0,0,0,0,0,0,0,0,0,0,0,0,3])) g = Inr p" for g p
  proof -
    have "p = take 14 [0,0,0,0,0,0,0,0,0,0,0,0,0,0,0,1] @
                g # map (\<lambda>d. d XOR (BLOCKSIZE - 14)) (drop (Suc 14) [0,0,0,0,0,0,0,0,0,0,0,0,0,0,0,1])"
      using that probe_iv_ok[OF wf that(1)] by simp
    then have "p ! 15 = 3" by (simp add: BLOCKSIZE_def)
    then show ?thesis by (simp add: last_only_def)
  qed
  have "fst (attack_single_block [] [] last_only) = Inl (SystemExit 1) \<and>
        (\<forall>c'\<in>set (snd (attack_single_block [] [] last_only)).
            c_index (Call Probe 14 0 [0,0,0,0,0,0,0,0,0,0,0,0,0,0,0,1] []
                       [0,0,0,0,0,0,0,0,0,0,0,0,0,0,0,3]) \<le> c_index c') \<and>
        driver_loop last_only [] ([] # []) []
          = (Inl (SystemExit 1), snd (attack_single_block [] [] last_only))"
    using h1 h2 by (rule exhaustion_is_fatal)
  with h1 show ?thesis by blast
qed

section \<open>The driver\<close>

lemma driver_loop_collect:
  "driver_loop chk prev bs acc =
     (case collect (map (\<lambda>k. attack_single_block (predecessor prev bs k) (bs ! k) chk)
                        [0..<length bs]) of
        (Inl e, cs) \<Rightarrow> (Inl e, cs)
      | (Inr ps, cs) \<Rightarrow> (Inr (acc @ ps), cs))"
proof (induction bs arbitrary: prev acc)
  case Nil
  then show ?case by simp
next
  case (Cons b bs)
  have shift: "map (\<lambda>k. attack_single_block (predecessor prev (b # bs) k) ((b # bs) ! k) chk)
                 [0..<length (b # bs)] =
               attack_single_block prev b chk #
               map (\<lambda>k. attack_single_block (predecessor b bs k) (bs ! k) chk) [0..<length bs]"
  proof -
    have "predecessor prev (b # bs) (Suc k) = predecessor b bs k" for k
      by (cases k) (simp_all add: predecessor_def)
    then show ?thesis
      by (simp add: map_upt_Suc predecessor_def del: upt_Suc)
  qed
  obtain r cs where a: "attack_single_block prev b chk = (r, cs)"
    by (cases "attack_single_block prev b chk")
  show ?case
  proof (cases r)
    case (Inl e)
    then show ?thesis unfolding shift using a by simp
  next
    case (Inr pb)
    obtain r' cs' where c: "collect (map (\<lambda>k. attack_single_block (predecessor b bs k) (bs ! k) chk)
                        [0..<length bs]) = (r', cs')"
      by (cases "collect (map (\<lambda>k. attack_single_block (predecessor b bs k) (bs ! k) chk)
                        [0..<length bs])")
    show ?thesis
      unfolding shift using a Inr c Cons.IH[of b "acc @ pb"]
      by (cases r') simp_all
  qed
qed

lemma concat_chunks:
  "concat (map (\<lambda>k. take n (drop (k * n) xs)) [0..<m]) = take (m * n) xs"
proof (induction m)
  case 0
  then show ?case by simp
next
  case (Suc m)
  have "take (m * n) xs @ take n (drop (m * n) xs) = take (m * n + n) xs"
    by (simp add: take_add)
  then show ?case using Suc by (simp add: add.commute)
qed

lemma concat_blocks_of: "concat (blocks_of ct) = ct"
proof -
  have "length ct \<le> (length ct + BLOCKSIZE - 1) div BLOCKSIZE * BLOCKSIZE"
    unfolding BLOCKSIZE_def by presburger
  then show ?thesis
    unfolding blocks_of_def concat_chunks by simp
qed

text \<open>
  Claim C7. The driver of the script computes what the specification describes: it
  attacks the consecutive \<open>BLOCKSIZE\<close>-byte blocks of the ciphertext in increasing order,
  block 0 with the IV as predecessor and block \<open>k\<close> with block \<open>k - 1\<close>, and returns the
  concatenation of the recovered blocks as it is, with no unpadding.
\<close>

theorem driver_sequences_blocks:
  "driver chk iv ct = driver_spec chk iv ct \<and>
   concat (blocks_of ct) = ct \<and>
   (\<forall>k. k < length (blocks_of ct) \<longrightarrow>
        blocks_of ct ! k = take BLOCKSIZE (drop (k * BLOCKSIZE) ct))"
proof -
  have len: "length (blocks_of ct) = (length ct + BLOCKSIZE - 1) div BLOCKSIZE"
    by (simp add: blocks_of_def)
  have "collect (map (\<lambda>k. attack_single_block (predecessor iv (blocks_of ct) k)
                               (blocks_of ct ! k) chk) [0..<length (blocks_of ct)])
          = driver_spec chk iv ct"
    unfolding driver_spec_def Let_def len by (simp only: blocks_of_def)
  then have 1: "driver chk iv ct = driver_spec chk iv ct"
    unfolding driver_def driver_loop_collect[of chk iv "blocks_of ct" "[]"]
    by (cases "driver_spec chk iv ct") (auto split: sum.splits)
  have 3: "blocks_of ct ! k = take BLOCKSIZE (drop (k * BLOCKSIZE) ct)"
    if "k < length (blocks_of ct)" for k
    using that unfolding len by (simp add: blocks_of_def)
  show ?thesis using 1 concat_blocks_of 3 by blast
qed

theorem driver_sequences_blocks_witness:
  "(1::nat) < length (blocks_of (replicate 20 7)) \<and>
   blocks_of (replicate 20 7) ! 1 = take BLOCKSIZE (drop (1 * BLOCKSIZE) (replicate 20 7))"
proof -
  have h: "(1::nat) < length (blocks_of (replicate 20 7))"
    by (simp add: blocks_of_def BLOCKSIZE_def)
  from driver_sequences_blocks[of never_valid "[]" "replicate 20 7"] h show ?thesis by blast
qed

section \<open>The demo oracle checks the pad\<close>

lemma blocks_of_single: "length ct = BLOCKSIZE \<Longrightarrow> blocks_of ct = [ct]"
  by (simp add: blocks_of_def BLOCKSIZE_def)

lemma unpad_valid:
  assumes "length d = BLOCKSIZE"
  shows "unpad d BLOCKSIZE =
           (if pkcs7_valid d then Inr (take (length d - last d) d) else Inl ValueError)"
proof -
  have ne: "d \<noteq> []" using assms by (auto simp: BLOCKSIZE_def)
  show ?thesis
    using assms ne by (auto simp: unpad_def pkcs7_valid_def Let_def BLOCKSIZE_def)
qed

lemma decrypt_check_block:
  assumes "length ct = BLOCKSIZE" and "length iv = BLOCKSIZE"
    and "length (decrypt_block aes (key self) ct) = BLOCKSIZE"
  shows "decrypt_check aes self ct iv =
           Inr (map2 (XOR) (decrypt_block aes (key self) ct) iv,
                pkcs7_valid (map2 (XOR) (decrypt_block aes (key self) ct) iv))"
proof -
  have len: "length (map2 (XOR) (decrypt_block aes (key self) ct) iv) = BLOCKSIZE"
    using assms by simp
  have m: "length ct mod BLOCKSIZE = 0" using assms(1) by simp
  show ?thesis
    unfolding decrypt_check_def blocks_of_single[OF assms(1)] Let_def
    using assms(2) m unpad_valid[OF len] by simp
qed

text \<open>
  Claim C6, at a concrete input. The claim has \<^verbatim>\<open>decrypt_check\<close> return, on invalid padding,
  the raw decryption together with \<open>False\<close>; the docstring of the function says the same of
  its first result: the output of the block decryption, before the XOR with the IV. With
  the cipher that XORs the block with the key \<open>[1, \<dots>, 16]\<close>, the block of sixteen zeros
  and the IV of sixteen sevens, \<^verbatim>\<open>decrypt_check\<close> raises nothing and reports the invalid pad
  with \<open>False\<close>, but its first result is \<open>[6, 5, \<dots>, 23]\<close>, the block decryption XORed with
  the IV, and not the block decryption \<open>[1, \<dots>, 16]\<close>.
\<close>

theorem decrypt_check_returns_cbc_plaintext:
  "decrypt_check toy_cipher toy_oracle (replicate 16 0) (replicate 16 7)
     = Inr ([6, 5, 4, 3, 2, 1, 0, 15, 14, 13, 12, 11, 10, 9, 8, 23], False) \<and>
   decrypt_block toy_cipher (key toy_oracle) (replicate 16 0)
     = [1, 2, 3, 4, 5, 6, 7, 8, 9, 10, 11, 12, 13, 14, 15, 16] \<and>
   pkcs7_valid [6, 5, 4, 3, 2, 1, 0, 15, 14, 13, 12, 11, 10, 9, 8, 23] = False"
proof -
  have d: "decrypt_block toy_cipher (key toy_oracle) (replicate 16 0)
             = [1, 2, 3, 4, 5, 6, 7, 8, 9, 10, 11, 12, 13, 14, 15, 16]"
    by code_simp
  have x: "map2 (XOR) [1, 2, 3, 4, 5, 6, 7, 8, 9, 10, 11, 12, 13, 14, 15, 16::nat] (replicate 16 7)
             = [6, 5, 4, 3, 2, 1, 0, 15, 14, 13, 12, 11, 10, 9, 8, 23]"
    by code_simp
  have v: "pkcs7_valid [6, 5, 4, 3, 2, 1, 0, 15, 14, 13, 12, 11, 10, 9, 8, 23] = False"
    by (simp add: pkcs7_valid_def BLOCKSIZE_def)
  have "decrypt_check toy_cipher toy_oracle (replicate 16 0) (replicate 16 7) =
           Inr (map2 (XOR) (decrypt_block toy_cipher (key toy_oracle) (replicate 16 0))
                  (replicate 16 7),
                pkcs7_valid (map2 (XOR) (decrypt_block toy_cipher (key toy_oracle)
                  (replicate 16 0)) (replicate 16 7)))"
    by (rule decrypt_check_block) (simp_all add: d BLOCKSIZE_def)
  then show ?thesis unfolding d x v by simp
qed

lemma pkcs7_valid_nth:
  assumes "length d = BLOCKSIZE"
  shows "pkcs7_valid d =
           (1 \<le> d ! (BLOCKSIZE - 1) \<and> d ! (BLOCKSIZE - 1) \<le> BLOCKSIZE \<and>
            (\<forall>k. BLOCKSIZE - d ! (BLOCKSIZE - 1) \<le> k \<and> k < BLOCKSIZE
                 \<longrightarrow> d ! k = d ! (BLOCKSIZE - 1)))"
proof -
  have ne: "d \<noteq> []" using assms by (auto simp: BLOCKSIZE_def)
  have l: "last d = d ! (BLOCKSIZE - 1)" using ne assms by (simp add: last_conv_nth)
  show ?thesis
  proof (cases "1 \<le> d ! (BLOCKSIZE - 1) \<and> d ! (BLOCKSIZE - 1) \<le> BLOCKSIZE")
    case False
    then show ?thesis using ne l by (auto simp: pkcs7_valid_def)
  next
    case True
    define p where "p = d ! (BLOCKSIZE - 1)"
    have p: "1 \<le> p" "p \<le> BLOCKSIZE" using True by (simp_all add: p_def)
    have "(drop (BLOCKSIZE - p) d = replicate p p) =
          (\<forall>k. BLOCKSIZE - p \<le> k \<and> k < BLOCKSIZE \<longrightarrow> d ! k = p)"
    proof
      assume a: "drop (BLOCKSIZE - p) d = replicate p p"
      show "\<forall>k. BLOCKSIZE - p \<le> k \<and> k < BLOCKSIZE \<longrightarrow> d ! k = p"
      proof (intro allI impI)
        fix k assume k: "BLOCKSIZE - p \<le> k \<and> k < BLOCKSIZE"
        then have "drop (BLOCKSIZE - p) d ! (k - (BLOCKSIZE - p)) = d ! k"
          using assms by simp
        moreover have "k - (BLOCKSIZE - p) < p" using k p by linarith
        then have "replicate p p ! (k - (BLOCKSIZE - p)) = p"
          by (rule nth_replicate)
        ultimately show "d ! k = p" using a by simp
      qed
    next
      assume a: "\<forall>k. BLOCKSIZE - p \<le> k \<and> k < BLOCKSIZE \<longrightarrow> d ! k = p"
      have "d ! (BLOCKSIZE - p + i) = p" if "i < p" for i
      proof -
        have "BLOCKSIZE - p \<le> BLOCKSIZE - p + i \<and> BLOCKSIZE - p + i < BLOCKSIZE"
          using that p by linarith
        then show ?thesis using a by blast
      qed
      then show "drop (BLOCKSIZE - p) d = replicate p p"
        using assms p by (simp add: list_eq_iff_nth_eq)
    qed
    then show ?thesis
      using ne l True assms unfolding pkcs7_valid_def p_def by simp
  qed
qed

section \<open>The attack against an honest oracle\<close>

lemma xor_one_neq: "(x::nat) XOR 1 \<noteq> x"
proof
  assume "x XOR 1 = x"
  then have "x XOR (x XOR 1) = x XOR x" by simp
  then have "(x XOR x) XOR 1 = x XOR x" by (simp only: xor.assoc)
  then show False by simp
qed

lemma xor_absorb: "(x::nat) XOR (x XOR c) = c"
  by (simp add: xor.assoc[symmetric])

lemma xor_eq_swap: "((x::nat) XOR g = c) = (g = x XOR c)"
  by (metis xor_absorb)

lemma guess_loop_first_accepted:
  assumes "wf_D D" "i < BLOCKSIZE" "\<forall>g'\<in>set gs. g' < 256" "g < 256"
    and rej: "\<And>g'. g' \<in> set gs \<Longrightarrow>
           (\<exists>dk. chk block (probe_form D i g') = Inr (dk, False)) \<or>
           (i = BLOCKSIZE - 1 \<and> (\<exists>dk. chk block (probe_form D i g') = Inr (dk, True)) \<and>
              (\<exists>dk. chk block (confirm_form (probe_form D i g') i) = Inr (dk, False)))"
    and acc: "\<exists>dk. chk block (probe_form D i g) = Inr (dk, True)"
      "i = BLOCKSIZE - 1 \<Longrightarrow> \<exists>dk. chk block (confirm_form (probe_form D i g) i) = Inr (dk, True)"
  shows "fst (guess_loop chk block D i (gs @ g # rest)) = Inr (Break (D[i := g XOR (BLOCKSIZE - i)])) \<and>
         length gs + 1 + (if i = BLOCKSIZE - 1 then 1 else 0)
           \<le> length (snd (guess_loop chk block D i (gs @ g # rest)))"
  using assms(3) rej
proof (induction gs)
  case Nil
  show ?case
    unfolding append_Nil guess_loop_step[OF assms(1,2,4)] using acc by auto
next
  case (Cons a gs)
  have a: "a < 256" using Cons.prems by simp
  have ih: "fst (guess_loop chk block D i (gs @ g # rest)) = Inr (Break (D[i := g XOR (BLOCKSIZE - i)])) \<and>
         length gs + 1 + (if i = BLOCKSIZE - 1 then 1 else 0)
           \<le> length (snd (guess_loop chk block D i (gs @ g # rest)))"
    using Cons.prems by (intro Cons.IH) auto
  have "(\<exists>dk. chk block (probe_form D i a) = Inr (dk, False)) \<or>
           (i = BLOCKSIZE - 1 \<and> (\<exists>dk. chk block (probe_form D i a) = Inr (dk, True)) \<and>
              (\<exists>dk. chk block (confirm_form (probe_form D i a) i) = Inr (dk, False)))"
    using Cons.prems(2)[of a] by simp
  then show ?case
    unfolding append_Cons guess_loop_step[OF assms(1,2) a] using ih by auto
qed

lemma pt_nth:
  assumes "agrees (Suc i) D dk" "length dk = BLOCKSIZE" "i < BLOCKSIZE" "k < BLOCKSIZE"
  shows "map2 (XOR) dk (probe_form D i g) ! k =
           (if k < i then dk ! k else if k = i then dk ! i XOR g else BLOCKSIZE - i)"
proof -
  have inv: "inv_D (Suc i) D" and ag: "\<And>j. i < j \<Longrightarrow> j < BLOCKSIZE \<Longrightarrow> D ! j = dk ! j"
    using assms(1) by (auto simp: agrees_def)
  have len: "length D = BLOCKSIZE" using inv by (simp add: inv_D_def wf_D_def)
  have "map2 (XOR) dk (probe_form D i g) ! k = dk ! k XOR probe_form D i g ! k"
    using assms(2,4) length_probe_form[OF len assms(3), of g] by simp
  also have "\<dots> = (if k < i then dk ! k else if k = i then dk ! i XOR g else BLOCKSIZE - i)"
    using inv_D_zero[OF inv, of k] ag[of k] assms(4)
    by (simp add: probe_form_nth[OF len assms(3,4)] xor_absorb)
  finally show ?thesis .
qed

lemma honest_valid_inner:
  assumes "agrees (Suc i) D dk" "length dk = BLOCKSIZE" "i < BLOCKSIZE" "i \<noteq> BLOCKSIZE - 1"
  shows "pkcs7_valid (map2 (XOR) dk (probe_form D i g)) = (g = dk ! i XOR (BLOCKSIZE - i))"
proof -
  have len: "length D = BLOCKSIZE" using assms(1) by (simp add: agrees_def inv_D_def wf_D_def)
  have l: "length (map2 (XOR) dk (probe_form D i g)) = BLOCKSIZE"
    using assms(2) length_probe_form[OF len assms(3), of g] by simp
  note n = pt_nth[OF assms(1,2,3)]
  have last: "map2 (XOR) dk (probe_form D i g) ! (BLOCKSIZE - 1) = BLOCKSIZE - i"
    using assms(3,4) by (subst n) auto
  have "(\<forall>k. BLOCKSIZE - (BLOCKSIZE - i) \<le> k \<and> k < BLOCKSIZE \<longrightarrow>
            map2 (XOR) dk (probe_form D i g) ! k = BLOCKSIZE - i)
        = (dk ! i XOR g = BLOCKSIZE - i)"
  proof
    assume a: "\<forall>k. BLOCKSIZE - (BLOCKSIZE - i) \<le> k \<and> k < BLOCKSIZE \<longrightarrow>
            map2 (XOR) dk (probe_form D i g) ! k = BLOCKSIZE - i"
    have "map2 (XOR) dk (probe_form D i g) ! i = BLOCKSIZE - i"
      using a assms(3) by simp
    then show "dk ! i XOR g = BLOCKSIZE - i" using n[OF assms(3)] by simp
  next
    assume a: "dk ! i XOR g = BLOCKSIZE - i"
    show "\<forall>k. BLOCKSIZE - (BLOCKSIZE - i) \<le> k \<and> k < BLOCKSIZE \<longrightarrow>
            map2 (XOR) dk (probe_form D i g) ! k = BLOCKSIZE - i"
      using a assms(3) by (auto simp: n)
  qed
  then show ?thesis
    unfolding pkcs7_valid_nth[OF l] last using assms(3) by (auto simp: xor_eq_swap)
qed

lemma honest_accept_last:
  assumes "agrees BLOCKSIZE D dk" "length dk = BLOCKSIZE"
  shows "(pkcs7_valid (map2 (XOR) dk (probe_form D (BLOCKSIZE - 1) g)) \<and>
          pkcs7_valid (map2 (XOR) dk
             (confirm_form (probe_form D (BLOCKSIZE - 1) g) (BLOCKSIZE - 1))))
         = (g = dk ! (BLOCKSIZE - 1) XOR 1)"
proof -
  define i where "i = BLOCKSIZE - 1"
  define P where "P = probe_form D i g"
  define P2 where "P2 = confirm_form P i"
  define y where "y = dk ! i XOR g"
  define j where "j = BLOCKSIZE - 2"
  have i: "i < BLOCKSIZE" "Suc i = BLOCKSIZE" "j < i" "j < BLOCKSIZE" "BLOCKSIZE - i = 1"
    and ij: "i - 1 = j"
    by (simp_all add: i_def j_def BLOCKSIZE_def)
  have ag: "agrees (Suc i) D dk" using assms(1) i by simp
  have len: "length D = BLOCKSIZE" using assms(1) by (simp add: agrees_def inv_D_def wf_D_def)
  have lP: "length P = BLOCKSIZE" unfolding P_def by (rule length_probe_form[OF len i(1)])
  have lP2: "length P2 = BLOCKSIZE" unfolding P2_def confirm_form_def using lP by simp
  have l1: "length (map2 (XOR) dk P) = BLOCKSIZE" using lP assms(2) by simp
  have l2: "length (map2 (XOR) dk P2) = BLOCKSIZE" using lP2 assms(2) by simp
  have n1: "map2 (XOR) dk P ! k = (if k < i then dk ! k else y)" if "k < BLOCKSIZE" for k
    using pt_nth[OF ag assms(2) i(1) that, of g] that i(2) unfolding P_def y_def by auto
  have Pz: "P ! j = 0"
  proof -
    have "inv_D (Suc i) D" using ag by (simp add: agrees_def)
    from inv_D_zero[OF this, of j] i(3) have "D ! j = 0" by simp
    then show ?thesis
      unfolding P_def using i(3) by (simp add: probe_form_nth[OF len i(1) i(4)])
  qed
  have P2n: "P2 ! k = (if k = j then 1 else P ! k)" if "k < BLOCKSIZE" for k
    unfolding P2_def confirm_form_def ij using that lP Pz by (simp add: nth_list_update)
  have n2: "map2 (XOR) dk P2 ! k =
              (if k = j then dk ! k XOR 1 else if k < i then dk ! k else y)"
    if "k < BLOCKSIZE" for k
  proof -
    have "map2 (XOR) dk P2 ! k = dk ! k XOR P2 ! k" using that lP2 assms(2) by simp
    moreover have "map2 (XOR) dk P ! k = dk ! k XOR P ! k" using that lP assms(2) by simp
    ultimately show ?thesis using n1[OF that] P2n[OF that] by auto
  qed
  have last1: "map2 (XOR) dk P ! (BLOCKSIZE - 1) = y"
    using n1[of "BLOCKSIZE - 1"] i by (simp add: i_def)
  have last2: "map2 (XOR) dk P2 ! (BLOCKSIZE - 1) = y"
    using n2[of "BLOCKSIZE - 1"] i by (simp add: i_def j_def BLOCKSIZE_def)
  have v1: "pkcs7_valid (map2 (XOR) dk P) =
              (1 \<le> y \<and> y \<le> BLOCKSIZE \<and>
               (\<forall>k. BLOCKSIZE - y \<le> k \<and> k < BLOCKSIZE \<longrightarrow> map2 (XOR) dk P ! k = y))"
    unfolding pkcs7_valid_nth[OF l1] last1 ..
  have v2: "pkcs7_valid (map2 (XOR) dk P2) =
              (1 \<le> y \<and> y \<le> BLOCKSIZE \<and>
               (\<forall>k. BLOCKSIZE - y \<le> k \<and> k < BLOCKSIZE \<longrightarrow> map2 (XOR) dk P2 ! k = y))"
    unfolding pkcs7_valid_nth[OF l2] last2 ..
  have "(pkcs7_valid (map2 (XOR) dk P) \<and> pkcs7_valid (map2 (XOR) dk P2)) = (y = 1)"
  proof
    assume a: "pkcs7_valid (map2 (XOR) dk P) \<and> pkcs7_valid (map2 (XOR) dk P2)"
    show "y = 1"
    proof (rule ccontr)
      assume "y \<noteq> 1"
      with a v1 have y: "2 \<le> y" "y \<le> BLOCKSIZE" by auto
      then have k: "BLOCKSIZE - y \<le> j \<and> j < BLOCKSIZE"
        using i by (simp add: j_def)
      from a v1 k have "map2 (XOR) dk P ! j = y" by blast
      then have e1: "dk ! j = y" using n1[OF i(4)] i(3) by simp
      from a v2 k have "map2 (XOR) dk P2 ! j = y" by blast
      then have "dk ! j XOR 1 = y" using n2[OF i(4)] by simp
      with e1 show False using xor_one_neq[of y] by simp
    qed
  next
    assume y1: "y = 1"
    have "map2 (XOR) dk P ! k = y" if "BLOCKSIZE - y \<le> k \<and> k < BLOCKSIZE" for k
      using that y1 n1[of k] i by (auto simp: i_def)
    moreover have "map2 (XOR) dk P2 ! k = y" if "BLOCKSIZE - y \<le> k \<and> k < BLOCKSIZE" for k
      using that y1 n2[of k] i by (auto simp: i_def j_def BLOCKSIZE_def)
    ultimately show "pkcs7_valid (map2 (XOR) dk P) \<and> pkcs7_valid (map2 (XOR) dk P2)"
      unfolding v1 v2 using y1 by (simp add: BLOCKSIZE_def)
  qed
  then show ?thesis
    unfolding P2_def P_def y_def i_def by (simp add: xor_eq_swap)
qed

lemma upt_split_at: "g < n \<Longrightarrow> [0..<n] = [0..<g] @ g # [Suc g..<n]"
  by (metis less_imp_le_nat upt_add_eq_append upt_conv_Cons zero_le le_add_diff_inverse add_0)

lemma honest_guess_loop:
  assumes "honest chk block dk" "length dk = BLOCKSIZE" "is_bytes dk" "i < BLOCKSIZE"
    and "agrees (Suc i) D dk"
  shows "fst (guess_loop chk block D i [0..<256]) = Inr (Break (D[i := dk ! i])) \<and>
         (dk ! i XOR (BLOCKSIZE - i)) + 1 + (if i = BLOCKSIZE - 1 then 1 else 0)
           \<le> length (snd (guess_loop chk block D i [0..<256]))"
proof -
  define t where "t = dk ! i XOR (BLOCKSIZE - i)"
  have wf: "wf_D D" using assms(5) by (simp add: agrees_def inv_D_def)
  have len: "length D = BLOCKSIZE" using wf by (simp add: wf_D_def)
  have "dk ! i < 256" using assms(2,3,4) by (simp add: is_bytes_nth)
  moreover have "BLOCKSIZE - i < 256" by (simp add: BLOCKSIZE_def)
  ultimately have t: "t < 256" unfolding t_def by (rule xor_lt_256)
  have lP: "length (probe_form D i g) = BLOCKSIZE" for g
    by (rule length_probe_form[OF len assms(4)])
  have lP2: "length (confirm_form (probe_form D i g) i) = BLOCKSIZE" for g
    using lP by (simp add: confirm_form_def)
  have c1: "\<exists>raw. chk block (probe_form D i g) =
              Inr (raw, pkcs7_valid (map2 (XOR) dk (probe_form D i g)))" for g
    using assms(1) lP unfolding honest_def by blast
  have c2: "\<exists>raw. chk block (confirm_form (probe_form D i g) i) =
              Inr (raw, pkcs7_valid (map2 (XOR) dk (confirm_form (probe_form D i g) i)))" for g
    using assms(1) lP2 unfolding honest_def by blast
  have acc_iff: "(pkcs7_valid (map2 (XOR) dk (probe_form D i g)) \<and>
                  (i = BLOCKSIZE - 1 \<longrightarrow>
                     pkcs7_valid (map2 (XOR) dk (confirm_form (probe_form D i g) i))))
                 = (g = t)" for g
  proof (cases "i = BLOCKSIZE - 1")
    case True
    have "agrees BLOCKSIZE D dk" using assms(5) True by (simp add: BLOCKSIZE_def)
    from honest_accept_last[OF this assms(2), of g] True show ?thesis
      by (simp add: t_def BLOCKSIZE_def)
  next
    case False
    from honest_valid_inner[OF assms(5,2,4) False, of g] False show ?thesis
      by (simp add: t_def)
  qed
  have rej: "(\<exists>dk. chk block (probe_form D i g') = Inr (dk, False)) \<or>
           (i = BLOCKSIZE - 1 \<and> (\<exists>dk. chk block (probe_form D i g') = Inr (dk, True)) \<and>
              (\<exists>dk. chk block (confirm_form (probe_form D i g') i) = Inr (dk, False)))"
    if "g' \<in> set [0..<t]" for g'
  proof -
    have "g' \<noteq> t" using that by simp
    with acc_iff[of g'] c1[of g'] c2[of g'] show ?thesis by auto
  qed
  have acc1: "\<exists>dk. chk block (probe_form D i t) = Inr (dk, True)"
    using acc_iff[of t] c1[of t] by auto
  have acc2: "\<exists>dk. chk block (confirm_form (probe_form D i t) i) = Inr (dk, True)"
    if "i = BLOCKSIZE - 1"
    using acc_iff[of t] c2[of t] that by auto
  have lt: "\<forall>g'\<in>set [0..<t]. g' < 256" using t by simp
  have "fst (guess_loop chk block D i ([0..<t] @ t # [Suc t..<256]))
           = Inr (Break (D[i := t XOR (BLOCKSIZE - i)])) \<and>
         length [0..<t] + 1 + (if i = BLOCKSIZE - 1 then 1 else 0)
           \<le> length (snd (guess_loop chk block D i ([0..<t] @ t # [Suc t..<256])))"
    using wf assms(4) lt t rej acc1 acc2 by (rule guess_loop_first_accepted)
  then have "fst (guess_loop chk block D i [0..<256]) = Inr (Break (D[i := t XOR (BLOCKSIZE - i)])) \<and>
         length [0..<t] + 1 + (if i = BLOCKSIZE - 1 then 1 else 0)
           \<le> length (snd (guess_loop chk block D i [0..<256]))"
    unfolding upt_split_at[OF t, symmetric] by blast
  then show ?thesis
    by (simp add: t_def xor_cancel_right)
qed

lemma agrees_step:
  assumes "agrees (Suc i) D dk" "i < BLOCKSIZE" "length dk = BLOCKSIZE" "is_bytes dk"
  shows "agrees i (D[i := dk ! i]) dk"
proof -
  have inv: "inv_D (Suc i) D" using assms(1) by (simp add: agrees_def)
  have len: "length D = BLOCKSIZE" using inv by (simp add: inv_D_def wf_D_def)
  have "dk ! i < 256" using assms(2,3,4) by (simp add: is_bytes_nth)
  moreover have "BLOCKSIZE - i < 256" by (simp add: BLOCKSIZE_def)
  ultimately have "dk ! i XOR (BLOCKSIZE - i) < 256" by (rule xor_lt_256)
  from inv_D_step[OF inv assms(2) this] have "inv_D i (D[i := dk ! i])"
    by (simp add: xor_cancel_right)
  moreover have "D[i := dk ! i] ! j = dk ! j" if "i \<le> j \<and> j < BLOCKSIZE" for j
    using that assms(1) len by (cases "j = i") (auto simp: agrees_def)
  ultimately show ?thesis by (simp add: agrees_def)
qed

lemma honest_index_loop:
  assumes "honest chk block dk" "length dk = BLOCKSIZE" "is_bytes dk"
    and "n \<le> BLOCKSIZE" "agrees n D dk"
  shows "fst (index_loop chk block D (rev [0..<n])) = Inr dk \<and>
         sum_list (map (\<lambda>i. (dk ! i XOR (BLOCKSIZE - i)) + 1) [0..<n])
           + (if n = BLOCKSIZE then 1 else 0)
           \<le> length (snd (index_loop chk block D (rev [0..<n])))"
  using assms(4,5)
proof (induction n arbitrary: D)
  case 0
  have "length D = BLOCKSIZE" using 0 by (simp add: agrees_def inv_D_def wf_D_def)
  moreover have "\<forall>j<BLOCKSIZE. D ! j = dk ! j" using 0 by (simp add: agrees_def)
  ultimately have "D = dk" using assms(2) by (simp add: list_eq_iff_nth_eq)
  then show ?case by (simp add: BLOCKSIZE_def)
next
  case (Suc i)
  have i: "i < BLOCKSIZE" "i \<le> BLOCKSIZE" using Suc.prems by simp_all
  from honest_guess_loop[OF assms(1,2,3) i(1) Suc.prems(2)]
  have gl: "fst (guess_loop chk block D i [0..<256]) = Inr (Break (D[i := dk ! i]))"
    and gc: "(dk ! i XOR (BLOCKSIZE - i)) + 1 + (if i = BLOCKSIZE - 1 then 1 else 0)
           \<le> length (snd (guess_loop chk block D i [0..<256]))"
    by simp_all
  from Suc.IH[OF i(2) agrees_step[OF Suc.prems(2) i(1) assms(2,3)]]
  have ih: "fst (index_loop chk block (D[i := dk ! i]) (rev [0..<i])) = Inr dk"
    and ic: "sum_list (map (\<lambda>i. (dk ! i XOR (BLOCKSIZE - i)) + 1) [0..<i])
           \<le> length (snd (index_loop chk block (D[i := dk ! i]) (rev [0..<i])))"
    using i(1) by simp_all
  show ?case
  proof (cases rule: index_loop_Cons_cases[of chk block D i "rev [0..<i]"])
    case (err e)
    then show ?thesis using gl by simp
  next
    case exh
    then show ?thesis using gl by simp
  next
    case (brk D1)
    then have D1: "D1 = D[i := dk ! i]" using gl by simp
    have e: "(Suc i = BLOCKSIZE) = (i = BLOCKSIZE - 1)" by (auto simp: BLOCKSIZE_def)
    show ?thesis
      unfolding rev_upt_Suc brk(2) D1 fst_prepend snd_prepend length_append e
      using ih ic gc by simp
  qed
qed

lemma honest_attack:
  assumes "honest chk block dk" "length dk = BLOCKSIZE" "is_bytes dk"
    and "length iv = BLOCKSIZE" "is_bytes iv"
  shows "fst (attack_single_block iv block chk) = Inr (map2 (XOR) dk iv) \<and>
         sum_list (map (\<lambda>i. (dk ! i XOR (BLOCKSIZE - i)) + 1) [0..<BLOCKSIZE]) + 1
           \<le> length (snd (attack_single_block iv block chk))"
proof -
  have "agrees BLOCKSIZE (replicate BLOCKSIZE 0) dk"
    using inv_D_init by (simp add: agrees_def)
  from honest_index_loop[OF assms(1,2,3) order_refl this]
  show ?thesis
    unfolding fst_attack_single_block snd_attack_single_block
    using assms by (simp add: xor_bytes_def bytes_of_def is_bytes_map2_xor)
qed

section \<open>Round trip\<close>

lemma real_honest:
  assumes "length block = BLOCKSIZE" "length (decrypt_block aes (key self) block) = BLOCKSIZE"
  shows "honest (decrypt_check aes self) block (decrypt_block aes (key self) block)"
  unfolding honest_def using decrypt_check_block[OF assms(1) _ assms(2)] by blast

lemma map2_xor_cancel:
  "length xs = length ys \<Longrightarrow> map2 (XOR) (map2 (XOR) xs ys) ys = xs"
  by (induction xs ys rule: list_induct2) (simp_all add: xor.assoc)

lemma driver_loop_cbc:
  assumes "wf_cipher aes (key self)"
    and "length prev = BLOCKSIZE" "is_bytes prev"
    and "\<forall>p\<in>set ps. length p = BLOCKSIZE \<and> is_bytes p"
  shows "fst (driver_loop (decrypt_check aes self) prev
               (cbc_encrypt (encrypt_block aes (key self)) prev ps) acc)
           = Inr (acc @ concat ps) \<and>
         (\<forall>c\<in>set (cbc_encrypt (encrypt_block aes (key self)) prev ps). length c = BLOCKSIZE)"
  using assms(2,3,4)
proof (induction ps arbitrary: prev acc)
  case Nil
  then show ?case by simp
next
  case (Cons p ps)
  define x where "x = map2 (XOR) p prev"
  define c where "c = encrypt_block aes (key self) x"
  have p: "length p = BLOCKSIZE" "is_bytes p" using Cons.prems by simp_all
  have x: "length x = BLOCKSIZE" "is_bytes x"
    using p Cons.prems(1,2) by (simp_all add: x_def is_bytes_map2_xor)
  have c: "length c = BLOCKSIZE" "is_bytes c" "decrypt_block aes (key self) c = x"
    using assms(1) x unfolding wf_cipher_def c_def by blast+
  have h: "honest (decrypt_check aes self) c x"
    using real_honest[of c aes self] c x by simp
  from honest_attack[OF h x Cons.prems(1,2)]
  have "fst (attack_single_block prev c (decrypt_check aes self)) = Inr (map2 (XOR) x prev)"
    by simp
  also have "map2 (XOR) x prev = p"
    unfolding x_def using p(1) Cons.prems(1) by (simp add: map2_xor_cancel)
  finally obtain cs where a: "attack_single_block prev c (decrypt_check aes self) = (Inr p, cs)"
    by (cases "attack_single_block prev c (decrypt_check aes self)") simp
  have ih: "fst (driver_loop (decrypt_check aes self) c
               (cbc_encrypt (encrypt_block aes (key self)) c ps) (acc @ p))
           = Inr ((acc @ p) @ concat ps) \<and>
         (\<forall>c\<in>set (cbc_encrypt (encrypt_block aes (key self)) c ps). length c = BLOCKSIZE)"
    using c Cons.prems(3) by (intro Cons.IH) simp_all
  have e: "cbc_encrypt (encrypt_block aes (key self)) prev (p # ps)
             = c # cbc_encrypt (encrypt_block aes (key self)) c ps"
    by (simp add: c_def x_def Let_def)
  show ?case
    unfolding e using a ih c(1) by simp
qed

lemma nth_chunk_concat:
  assumes "\<forall>c\<in>set cs. length c = n" "k < length cs"
  shows "take n (drop (k * n) (concat cs)) = cs ! k"
  using assms
proof (induction cs arbitrary: k)
  case Nil
  then show ?case by simp
next
  case (Cons c cs)
  show ?case
  proof (cases k)
    case 0
    then show ?thesis using Cons.prems by simp
  next
    case (Suc k')
    have "drop (k * n) (concat (c # cs)) = drop (k' * n) (concat cs)"
      using Cons.prems Suc by simp
    then show ?thesis using Cons Suc by simp
  qed
qed

lemma length_concat_blocks:
  "\<forall>c\<in>set cs. length c = n \<Longrightarrow> length (concat cs) = length cs * n"
  by (induction cs) simp_all

lemma blocks_of_concat:
  assumes "\<forall>c\<in>set cs. length c = BLOCKSIZE"
  shows "blocks_of (concat cs) = cs"
proof -
  have l: "(length (concat cs) + BLOCKSIZE - 1) div BLOCKSIZE = length cs"
    unfolding length_concat_blocks[OF assms] BLOCKSIZE_def by presburger
  show ?thesis
    unfolding blocks_of_def l using nth_chunk_concat[OF assms]
    by (intro nth_equalityI) simp_all
qed

lemma blocks_of_wf:
  assumes "length xs mod BLOCKSIZE = 0" "is_bytes xs" "b \<in> set (blocks_of xs)"
  shows "length b = BLOCKSIZE \<and> is_bytes b"
proof -
  obtain m where m: "length xs = m * BLOCKSIZE"
    using assms(1) by (auto simp: mod_eq_0_iff_dvd dvd_def mult.commute)
  have n: "(length xs + BLOCKSIZE - 1) div BLOCKSIZE = m"
    unfolding m BLOCKSIZE_def by presburger
  from assms(3) obtain k where k: "k < m" "b = take BLOCKSIZE (drop (k * BLOCKSIZE) xs)"
    unfolding blocks_of_def n by auto
  have "Suc k * BLOCKSIZE \<le> m * BLOCKSIZE" using k(1) by (intro mult_le_mono1) simp
  then have "length b = BLOCKSIZE" unfolding k(2) using m by simp
  moreover have "is_bytes b" unfolding k(2) using assms(2) by (intro is_bytes_take is_bytes_drop)
  ultimately show ?thesis by simp
qed

lemma pad_wf:
  assumes "is_bytes message"
  shows "length (pad message BLOCKSIZE) mod BLOCKSIZE = 0 \<and> is_bytes (pad message BLOCKSIZE)"
proof -
  have "(length message + (BLOCKSIZE - length message mod BLOCKSIZE)) mod BLOCKSIZE = 0"
    unfolding BLOCKSIZE_def by presburger
  moreover have "BLOCKSIZE - length message mod BLOCKSIZE < 256" by (simp add: BLOCKSIZE_def)
  ultimately show ?thesis using assms by (simp add: pad_def Let_def)
qed

text \<open>
  Claim C1. Let the block cipher of the oracle be a cipher on blocks (on \<open>BLOCKSIZE\<close>-byte
  blocks its encryption returns \<open>BLOCKSIZE\<close>-byte blocks and its decryption inverts the
  encryption). For every message and every IV of \<open>BLOCKSIZE\<close> bytes drawn by \<^verbatim>\<open>encrypt\<close>,
  the driver, run on the IV and the ciphertext that \<^verbatim>\<open>encrypt\<close> returns, returns the
  padded message, byte for byte.
\<close>

theorem attack_recovers_padded_plaintext:
  assumes "wf_cipher aes (key self)" and "length iv = BLOCKSIZE" and "is_bytes iv"
    and "is_bytes message"
  shows "fst (driver (decrypt_check aes self) (fst (encrypt aes self iv message))
                (snd (encrypt aes self iv message)))
           = Inr (pad message BLOCKSIZE)"
proof -
  define ps where "ps = blocks_of (pad message BLOCKSIZE)"
  have ps: "\<forall>p\<in>set ps. length p = BLOCKSIZE \<and> is_bytes p"
  proof
    fix p assume "p \<in> set ps"
    then have "p \<in> set (blocks_of (pad message BLOCKSIZE))" by (simp add: ps_def)
    from blocks_of_wf[OF conjunct1[OF pad_wf[OF assms(4)]] conjunct2[OF pad_wf[OF assms(4)]] this]
    show "length p = BLOCKSIZE \<and> is_bytes p" .
  qed
  from driver_loop_cbc[OF assms(1,2,3) ps, of "[]"]
  have d: "fst (driver_loop (decrypt_check aes self) iv
               (cbc_encrypt (encrypt_block aes (key self)) iv ps) []) = Inr (concat ps)"
    and l: "\<forall>c\<in>set (cbc_encrypt (encrypt_block aes (key self)) iv ps). length c = BLOCKSIZE"
    by simp_all
  have "concat ps = pad message BLOCKSIZE" unfolding ps_def by (rule concat_blocks_of)
  then show ?thesis
    using d unfolding encrypt_def driver_def fst_conv snd_conv ps_def[symmetric]
      blocks_of_concat[OF l] by simp
qed

lemma wf_toy_cipher:
  assumes "length k = BLOCKSIZE" "is_bytes k"
  shows "wf_cipher toy_cipher k"
  using assms by (simp add: wf_cipher_def toy_cipher_def is_bytes_map2_xor map2_xor_cancel)

theorem attack_recovers_padded_plaintext_witness:
  "wf_cipher toy_cipher (key toy_oracle) \<and> length (replicate 16 (7::nat)) = BLOCKSIZE \<and>
   is_bytes (replicate 16 7) \<and> is_bytes [76, 111, 110, 103] \<and>
   fst (driver (decrypt_check toy_cipher toy_oracle)
          (fst (encrypt toy_cipher toy_oracle (replicate 16 7) [76, 111, 110, 103]))
          (snd (encrypt toy_cipher toy_oracle (replicate 16 7) [76, 111, 110, 103])))
     = Inr (pad [76, 111, 110, 103] BLOCKSIZE)"
proof -
  have h1: "wf_cipher toy_cipher (key toy_oracle)"
    by (rule wf_toy_cipher) (simp_all add: toy_oracle_def BLOCKSIZE_def)
  have h2: "length (replicate 16 (7::nat)) = BLOCKSIZE" by (simp add: BLOCKSIZE_def)
  have h3: "is_bytes (replicate 16 7)" by simp
  have h4: "is_bytes [76, 111, 110, 103]" by simp
  from attack_recovers_padded_plaintext[OF h1 h2 h3 h4] h1 h2 h3 h4 show ?thesis by blast
qed

section \<open>The number of oracle calls\<close>

text \<open>
  Claim C9 as stated fails. With the oracle of the script and a block whose block
  decryption is \<open>[239, 240, \<dots>, 254]\<close>, the accepted guess is 255 at every index, so
  that 256 probes are made at each of the 16 indices, and the confirmation probe at the
  last index is one call more than \<open>BLOCKSIZE * 256\<close>.
\<close>

theorem oracle_calls_bound_counterexample:
  "BLOCKSIZE * 256
     < length (snd (attack_single_block (replicate 16 0) (replicate 16 0)
                      (decrypt_check toy_cipher worst_oracle)))"
proof -
  define dk :: bytes where
    "dk = [239, 240, 241, 242, 243, 244, 245, 246, 247, 248, 249, 250, 251, 252, 253, 254]"
  have d: "decrypt_block toy_cipher (key worst_oracle) (replicate 16 0) = dk"
    unfolding dk_def by code_simp
  have l: "length dk = BLOCKSIZE" by (simp add: dk_def BLOCKSIZE_def)
  have b: "is_bytes dk" by (simp add: dk_def)
  have "honest (decrypt_check toy_cipher worst_oracle) (replicate 16 0)
          (decrypt_block toy_cipher (key worst_oracle) (replicate 16 0))"
    by (rule real_honest) (simp_all add: d l, simp add: BLOCKSIZE_def)
  then have h: "honest (decrypt_check toy_cipher worst_oracle) (replicate 16 0) dk"
    by (simp only: d)
  have s: "sum_list (map (\<lambda>i. (dk ! i XOR (BLOCKSIZE - i)) + 1) [0..<BLOCKSIZE]) = 4096"
    unfolding dk_def BLOCKSIZE_def by code_simp
  have "sum_list (map (\<lambda>i. (dk ! i XOR (BLOCKSIZE - i)) + 1) [0..<BLOCKSIZE]) + 1
          \<le> length (snd (attack_single_block (replicate 16 0) (replicate 16 0)
                      (decrypt_check toy_cipher worst_oracle)))"
    using honest_attack[OF h l b, of "replicate 16 0"] by (simp add: BLOCKSIZE_def)
  then show ?thesis unfolding s by (simp add: BLOCKSIZE_def)
qed

end
